theory Spec2Isabelle
  imports Main
begin

section \<open>Paths\<close>

text \<open>
  The program handles files through \<^verbatim>\<open>pathlib.Path\<close>. A path is its anchor (the root,
  empty for a relative path) and its components; two paths are equal when both agree,
  which is the comparison \<^verbatim>\<open>P not in self.files\<close> and \<^verbatim>\<open>Path(vals[1]) == path\<close>
  perform. \<^verbatim>\<open>name\<close>, \<^verbatim>\<open>stem\<close> and \<^verbatim>\<open>suffix\<close> follow pathlib: the suffix starts at the
  last dot of the name, unless that dot is the first or the last character.
\<close>

datatype path = Path (anchor: string) (segs: "string list")

definition path_name :: "path \<Rightarrow> string" where
  "path_name p = (if segs p = [] then [] else last (segs p))"

definition rfind :: "char \<Rightarrow> string \<Rightarrow> nat option" where
  "rfind c s =
     (if c \<in> set s then Some (length s - 1 - length (takeWhile (\<lambda>x. x \<noteq> c) (rev s)))
      else None)"

definition path_suffix :: "path \<Rightarrow> string" where
  "path_suffix p =
     (let n = path_name p in
      case rfind CHR ''.'' n of
        None \<Rightarrow> []
      | Some i \<Rightarrow> if 0 < i \<and> i + 1 < length n then drop i n else [])"

definition path_stem :: "path \<Rightarrow> string" where
  "path_stem p =
     (let n = path_name p in
      case rfind CHR ''.'' n of
        None \<Rightarrow> n
      | Some i \<Rightarrow> if 0 < i \<and> i + 1 < length n then take i n else n)"

text \<open>\<^verbatim>\<open>out_dir / f"{base}.parquet"\<close>: one more component below a directory.\<close>

definition joinpath :: "path \<Rightarrow> string \<Rightarrow> path" where
  "joinpath d s = Path (anchor d) (segs d @ [s])"

text \<open>
  \<^verbatim>\<open>Path(out)\<close> for the text of the output-folder entry, POSIX flavour: a leading slash
  is the anchor (exactly two leading slashes are kept as they are), empty components and
  single dots are dropped.
\<close>

fun split_on :: "char \<Rightarrow> string \<Rightarrow> string \<Rightarrow> string list" where
  "split_on c cur [] = [cur]"
| "split_on c cur (x # xs) =
     (if x = c then cur # split_on c [] xs else split_on c (cur @ [x]) xs)"

definition mk_path :: "string \<Rightarrow> path" where
  "mk_path s =
     Path (if take 2 s = ''//'' \<and> take 3 s \<noteq> ''///'' then ''//''
           else if take 1 s = ''/'' then ''/'' else [])
          (filter (\<lambda>g. g \<noteq> [] \<and> g \<noteq> ''.'') (split_on CHR ''/'' [] s))"

text \<open>
  \<^verbatim>\<open>str.lower\<close> and \<^verbatim>\<open>str.strip\<close> on the ASCII range; the white space outside it
  that Python also strips (U+0085, U+00A0 and others) is not covered.
\<close>

definition lower_char :: "char \<Rightarrow> char" where
  "lower_char c =
     (let n = (of_char c :: nat) in if 65 \<le> n \<and> n \<le> 90 then char_of (n + 32) else c)"

definition lower :: "string \<Rightarrow> string" where
  "lower s = map lower_char s"

definition is_space :: "char \<Rightarrow> bool" where
  "is_space c =
     (let n = (of_char c :: nat) in n = 32 \<or> (9 \<le> n \<and> n \<le> 13) \<or> (28 \<le> n \<and> n \<le> 31))"

definition strip :: "string \<Rightarrow> string" where
  "strip s = rev (dropWhile is_space (rev (dropWhile is_space s)))"

section \<open>Application state\<close>

text \<open>
  The status column of the queue view holds one of six texts; the Parquet and CSV
  columns hold nothing, a check mark, or a check mark with the word existing; a row
  carries one colour tag.
\<close>

datatype status = Queued | Running | Done | Skipped | Error | Cancelled

datatype mark = NoMark | Check | CheckExisting

datatype tag = TagOk | TagRun | TagErr | TagWait

record row =
  row_path :: path
  status :: status
  parquet :: mark
  csv :: mark
  tags :: tag

text \<open>
  The Tk variables of \<^verbatim>\<open>App.__init__\<close>. The worker thread reads some of them while the
  user can still change them, so the model does not pass one value of this record but a
  function from the moment of the read to the value the variables have then.
\<close>

record config =
  output_dir :: string
  scaling :: bool
  write_parquet :: bool
  write_csv :: bool
  user_message :: string
  subfolder :: bool
  timestamp_suffix :: bool
  skip_existing :: bool
  zip_outputs :: bool

datatype moment = Preflight | AtStart | AtItem nat | AtEnd

text \<open>
  Everything the program takes from outside. A call that can raise returns
  \<open>Some msg\<close> when it raises an \<^verbatim>\<open>Exception\<close> with that message and \<open>None\<close> when it
  returns. The natural number given to the decoder and the writers is the index of the
  item being processed, so that the same file may fail at one time and not at another.
  The decoder's release at the end of the \<^verbatim>\<open>with\<close> block is taken to succeed and to
  let an exception of the block pass.
\<close>

record world =
  ui :: "moment \<Rightarrow> config"
  stop_flag :: "moment \<Rightarrow> bool"
  ts_now :: "moment \<Rightarrow> string"
  check_deps :: "string list"
  mkdir :: "path \<Rightarrow> string option"
  askyesno :: bool
  import_decoder :: "string option"
  open_decoder :: "nat \<Rightarrow> string option"
  read_bin_file :: "nat \<Rightarrow> path \<Rightarrow> bool \<Rightarrow> string option"
  add_user_meta_data :: "nat \<Rightarrow> string \<Rightarrow> string option"
  write_table :: "nat \<Rightarrow> path \<Rightarrow> string option"
  to_csv :: "nat \<Rightarrow> path \<Rightarrow> string option"
  zip_open :: "path \<Rightarrow> string option"
  zip_write :: "path \<Rightarrow> string option"

text \<open>
  What the worker does to the display, in order: status changes of rows, progress-bar
  values, log lines (one constructor per message of the source, holding the values the
  message is formatted from), the end-of-run notification and the fatal-error box.
\<close>

datatype event =
    SetStatus path status tag mark mark
  | SetProgress nat
  | LogReading nat nat string
  | LogSkipped nat nat string
  | LogFinished nat nat string
  | LogError string string
  | LogTraceback
  | LogBundling nat string
  | LogZipFailed string string
  | EndRun bool
  | FatalErrorBox string

text \<open>
  The state a run works on: the queue view, the files on disk, the worker's list
  \<^verbatim>\<open>produced\<close>, the events so far and the entries of the archive, if one was opened.
\<close>

record run_state =
  tree :: "row list"
  fs :: "path set"
  produced :: "path list"
  trace :: "event list"
  archive :: "(path \<times> string list) option"

section \<open>The queue\<close>

text \<open>
  \<^verbatim>\<open>_add_files\<close> and \<^verbatim>\<open>_on_drop_files\<close>, for the list of \<^verbatim>\<open>Path(p)\<close> values of the
  chosen or dropped names. The row number of the view is the position of the row.
\<close>

record queue =
  files :: "path list"
  rows :: "row list"

definition tree_insert :: "path \<Rightarrow> status \<Rightarrow> row list \<Rightarrow> row list" where
  "tree_insert p s rs =
     rs @ [\<lparr>row_path = p, status = s, parquet = NoMark, csv = NoMark, tags = TagWait\<rparr>]"

fun add_files :: "path set \<Rightarrow> path list \<Rightarrow> queue \<Rightarrow> queue" where
  "add_files disk [] q = q"
| "add_files disk (P # paths) q =
     add_files disk paths
       (if P \<in> disk \<and> P \<notin> set (files q)
        then q\<lparr>files := files q @ [P], rows := tree_insert P Queued (rows q)\<rparr>
        else q)"

fun on_drop_files :: "path set \<Rightarrow> path list \<Rightarrow> queue \<Rightarrow> queue" where
  "on_drop_files disk [] q = q"
| "on_drop_files disk (P # paths) q =
     on_drop_files disk paths
       (if P \<in> disk \<and> lower (path_suffix P) \<in> {''.udf'', ''.bin''} \<and> P \<notin> set (files q)
        then q\<lparr>files := files q @ [P], rows := tree_insert P Queued (rows q)\<rparr>
        else q)"

section \<open>The worker\<close>

text \<open>
  \<^verbatim>\<open>_set_status\<close> changes the first row of the view whose path is the given one; the
  Parquet and CSV columns are overwritten only by a non-empty text. The model also
  records the call in the trace.
\<close>

fun set_status_rows :: "path \<Rightarrow> status \<Rightarrow> tag \<Rightarrow> mark \<Rightarrow> mark \<Rightarrow> row list \<Rightarrow> row list" where
  "set_status_rows p s t pq cv [] = []"
| "set_status_rows p s t pq cv (r # rs) =
     (if row_path r = p
      then r\<lparr>status := s,
             parquet := (if pq \<noteq> NoMark then pq else parquet r),
             csv := (if cv \<noteq> NoMark then cv else csv r),
             tags := t\<rparr> # rs
      else r # set_status_rows p s t pq cv rs)"

definition emit :: "event \<Rightarrow> run_state \<Rightarrow> run_state" where
  "emit e st = st\<lparr>trace := trace st @ [e]\<rparr>"

definition set_status :: "path \<Rightarrow> status \<Rightarrow> tag \<Rightarrow> mark \<Rightarrow> mark \<Rightarrow> run_state \<Rightarrow> run_state" where
  "set_status p s t pq cv st =
     emit (SetStatus p s t pq cv) (st\<lparr>tree := set_status_rows p s t pq cv (tree st)\<rparr>)"

text \<open>\<^verbatim>\<open>_name_suffix\<close> reads the check box and the clock at the moment of the call.\<close>

definition name_suffix :: "world \<Rightarrow> moment \<Rightarrow> string" where
  "name_suffix w m = (if timestamp_suffix (ui w m) then ''_'' @ ts_now w m else [])"

text \<open>The local variables \<^verbatim>\<open>_worker_run\<close> sets before its loop.\<close>

record snapshot =
  do_parq :: bool
  do_csv :: bool
  apply_scaling :: bool
  user_msg :: "string option"
  suffix :: string

definition take_snapshot :: "world \<Rightarrow> snapshot" where
  "take_snapshot w =
     \<lparr>do_parq = write_parquet (ui w AtStart),
      do_csv = write_csv (ui w AtStart),
      apply_scaling = scaling (ui w AtStart),
      user_msg = (let m = strip (user_message (ui w AtStart)) in if m = [] then None else Some m),
      suffix = name_suffix w AtStart\<rparr>"

text \<open>The planned output paths of one item; \<open>None\<close> when the format is off.\<close>

definition parq_path :: "snapshot \<Rightarrow> path \<Rightarrow> path \<Rightarrow> path option" where
  "parq_path sn out_dir in_file =
     (if do_parq sn then Some (joinpath out_dir (path_stem in_file @ suffix sn @ ''.parquet''))
      else None)"

definition csv_path :: "snapshot \<Rightarrow> path \<Rightarrow> path \<Rightarrow> path option" where
  "csv_path sn out_dir in_file =
     (if do_csv sn then Some (joinpath out_dir (path_stem in_file @ suffix sn @ ''.csv''))
      else None)"

text \<open>\<^verbatim>\<open>parq_path and parq_path.exists()\<close>: a planned path that is on disk.\<close>

definition on_disk :: "path set \<Rightarrow> path option \<Rightarrow> bool" where
  "on_disk disk po = (case po of None \<Rightarrow> False | Some p \<Rightarrow> p \<in> disk)"

text \<open>
  The two writes inside the \<^verbatim>\<open>with\<close> block. A write that returns leaves the file on
  disk and appends its path to \<^verbatim>\<open>produced\<close>; one that raises leaves both as they were.
\<close>

definition write_parquet_step ::
  "world \<Rightarrow> nat \<Rightarrow> path option \<Rightarrow> run_state \<Rightarrow> string option \<times> run_state" where
  "write_parquet_step w idx po st =
     (case po of
        None \<Rightarrow> (None, st)
      | Some p \<Rightarrow>
          (case write_table w idx p of
             Some e \<Rightarrow> (Some e, st)
           | None \<Rightarrow> (None, st\<lparr>fs := insert p (fs st), produced := produced st @ [p]\<rparr>)))"

definition write_csv_step ::
  "world \<Rightarrow> nat \<Rightarrow> path option \<Rightarrow> run_state \<Rightarrow> string option \<times> run_state" where
  "write_csv_step w idx po st =
     (case po of
        None \<Rightarrow> (None, st)
      | Some p \<Rightarrow>
          (case to_csv w idx p of
             Some e \<Rightarrow> (Some e, st)
           | None \<Rightarrow> (None, st\<lparr>fs := insert p (fs st), produced := produced st @ [p]\<rparr>)))"

text \<open>
  The \<^verbatim>\<open>with UDFDecoder() as dec\<close> block: the first component of the result is the
  exception that left the block, if any; the state holds what was done before it.
\<close>

definition with_decoder ::
  "world \<Rightarrow> snapshot \<Rightarrow> nat \<Rightarrow> nat \<Rightarrow> path \<Rightarrow> path option \<Rightarrow> path option \<Rightarrow> run_state
     \<Rightarrow> string option \<times> run_state" where
  "with_decoder w sn total' idx in_file pp cp st =
     (case open_decoder w idx of
        Some e \<Rightarrow> (Some e, st)
      | None \<Rightarrow>
          (let st1 = emit (LogReading idx total' (path_name in_file)) st in
           case read_bin_file w idx in_file (apply_scaling sn) of
             Some e \<Rightarrow> (Some e, st1)
           | None \<Rightarrow>
               (case (case user_msg sn of None \<Rightarrow> None | Some m \<Rightarrow> add_user_meta_data w idx m) of
                  Some e \<Rightarrow> (Some e, st1)
                | None \<Rightarrow>
                    (case write_parquet_step w idx pp st1 of
                       (Some e, st2) \<Rightarrow> (Some e, st2)
                     | (None, st2) \<Rightarrow> write_csv_step w idx cp st2))))"

text \<open>
  One iteration of the loop after the cancellation test: the row is set to Running,
  then the \<^verbatim>\<open>try\<close> block either skips the item, or decodes and writes it; an exception
  of the block is caught by \<^verbatim>\<open>except Exception\<close>. \<^verbatim>\<open>self.skip_existing.get()\<close> is
  read here, in every iteration.
\<close>

definition process_item ::
  "world \<Rightarrow> snapshot \<Rightarrow> path \<Rightarrow> nat \<Rightarrow> nat \<Rightarrow> path \<Rightarrow> run_state \<Rightarrow> run_state" where
  "process_item w sn out_dir total' idx in_file st =
     (let st1 = set_status in_file Running TagRun NoMark NoMark st;
          pp = parq_path sn out_dir in_file;
          cp = csv_path sn out_dir in_file
      in if skip_existing (ui w (AtItem idx)) \<and> (on_disk (fs st1) pp \<or> on_disk (fs st1) cp)
         then emit (SetProgress idx)
                (emit (LogSkipped idx total' (path_name in_file))
                   (set_status in_file Skipped TagWait
                      (if on_disk (fs st1) pp then CheckExisting else NoMark)
                      (if on_disk (fs st1) cp then CheckExisting else NoMark) st1))
         else (case with_decoder w sn total' idx in_file pp cp st1 of
                 (None, st2) \<Rightarrow>
                   emit (SetProgress idx)
                     (emit (LogFinished idx total' (path_name in_file))
                        (set_status in_file Done TagOk
                           (if pp \<noteq> None then Check else NoMark)
                           (if cp \<noteq> None then Check else NoMark) st2))
               | (Some e, st2) \<Rightarrow>
                   emit (SetProgress idx)
                     (emit LogTraceback
                        (emit (LogError (path_name in_file) e)
                           (set_status in_file Error TagErr NoMark NoMark st2)))))"

text \<open>
  The loop \<^verbatim>\<open>for idx, in_file in enumerate(self.files, start=1)\<close>: the stop flag is
  tested at the top of each iteration, and a set flag marks the item Cancelled and
  leaves the loop. The loop runs over the queue as it is when the worker starts; files
  added to the queue while the run is in flight are not modelled.
\<close>

fun worker_loop ::
  "world \<Rightarrow> snapshot \<Rightarrow> path \<Rightarrow> nat \<Rightarrow> nat \<Rightarrow> path list \<Rightarrow> run_state \<Rightarrow> run_state" where
  "worker_loop w sn out_dir total' idx [] st = st"
| "worker_loop w sn out_dir total' idx (in_file # rest) st =
     (if stop_flag w (AtItem idx)
      then set_status in_file Cancelled TagErr NoMark NoMark st
      else worker_loop w sn out_dir total' (Suc idx) rest
             (process_item w sn out_dir total' idx in_file st))"

text \<open>
  The archive step: \<^verbatim>\<open>zf.write(p, arcname=p.name)\<close> for every produced path, each in
  its own \<^verbatim>\<open>try\<close>; the entries that were added are kept in order.
\<close>

fun zip_all :: "world \<Rightarrow> path list \<Rightarrow> string list \<times> event list \<Rightarrow> string list \<times> event list" where
  "zip_all w [] acc = acc"
| "zip_all w (p # ps) (entries, evs) =
     zip_all w ps
       (case zip_write w p of
          None \<Rightarrow> (entries @ [path_name p], evs)
        | Some e \<Rightarrow> (entries, evs @ [LogZipFailed (path_name p) e]))"

text \<open>
  After the loop. Opening the archive is outside every inner \<^verbatim>\<open>try\<close>, so an exception
  there reaches the outer handler; the result is \<open>Inl\<close> of the message and the state at
  that point.
\<close>

definition bundle_outputs :: "world \<Rightarrow> path \<Rightarrow> run_state \<Rightarrow> (string \<times> run_state) + run_state" where
  "bundle_outputs w out_dir st =
     (if zip_outputs (ui w AtEnd) \<and> produced st \<noteq> []
      then (let zip_name = joinpath out_dir (''udf_exports_'' @ ts_now w AtEnd @ ''.zip'');
                st1 = emit (LogBundling (length (produced st)) (path_name zip_name)) st
            in case zip_open w zip_name of
                 Some e \<Rightarrow> Inl (e, st1)
               | None \<Rightarrow>
                   (let (entries, evs) = zip_all w (produced st1) ([], [])
                    in Inr (st1\<lparr>fs := insert zip_name (fs st1),
                                trace := trace st1 @ evs,
                                archive := Some (zip_name, entries)\<rparr>)))
      else Inr st)"

text \<open>
  \<^verbatim>\<open>_worker_run\<close>. The outer \<^verbatim>\<open>except Exception\<close> ends the run as stopped and shows
  the fatal-error box.
\<close>

definition fatal :: "string \<Rightarrow> run_state \<Rightarrow> run_state" where
  "fatal e st = emit (FatalErrorBox e) (emit (EndRun True) st)"

definition worker_run :: "world \<Rightarrow> path \<Rightarrow> path list \<Rightarrow> run_state \<Rightarrow> run_state" where
  "worker_run w out_dir fls st0 =
     (let st = st0\<lparr>produced := []\<rparr> in
      case import_decoder w of
        Some e \<Rightarrow> fatal e st
      | None \<Rightarrow>
          (let sn = take_snapshot w;
               st1 = worker_loop w sn out_dir (length fls) 1 fls st
           in case bundle_outputs w out_dir st1 of
                Inl (e, st2) \<Rightarrow> fatal e st2
              | Inr st2 \<Rightarrow> emit (EndRun (stop_flag w AtEnd)) st2))"

section \<open>Starting a batch\<close>

text \<open>
  \<^verbatim>\<open>_find_collisions\<close> reads the two format check boxes itself; it is called from
  \<^verbatim>\<open>_on_convert\<close>, so it sees their values at that moment.
\<close>

fun find_collisions :: "config \<Rightarrow> path set \<Rightarrow> path \<Rightarrow> string \<Rightarrow> path list \<Rightarrow> string list" where
  "find_collisions c disk out_dir sfx [] = []"
| "find_collisions c disk out_dir sfx (f # fls) =
     (let base = path_stem f @ sfx in
        (if write_parquet c \<and> joinpath out_dir (base @ ''.parquet'') \<in> disk
         then [base @ ''.parquet''] else [])
      @ (if write_csv c \<and> joinpath out_dir (base @ ''.csv'') \<in> disk
         then [base @ ''.csv''] else []))
     @ find_collisions c disk out_dir sfx fls"

datatype refusal =
    NoFiles
  | NoFormats
  | NoOutputFolder
  | OutputFolderMissing
  | MissingDependencies "string list"
  | MkdirFailed string
  | OverwriteDeclined "string list"

text \<open>
  \<^verbatim>\<open>_on_convert\<close> up to the start of the worker thread: the checks that refuse to
  start, the subfolder, and the collision question when skip-existing is off. The result
  is the output directory handed to the worker and the disk after \<^verbatim>\<open>mkdir\<close>.
\<close>

definition preflight :: "world \<Rightarrow> path set \<Rightarrow> path list \<Rightarrow> refusal + (path \<times> path set)" where
  "preflight w disk fls =
     (let c = ui w Preflight; out = strip (output_dir c) in
      if fls = [] then Inl NoFiles
      else if \<not> (write_parquet c \<or> write_csv c) then Inl NoFormats
      else if out = [] then Inl NoOutputFolder
      else if mk_path out \<notin> disk then Inl OutputFolderMissing
      else if check_deps w \<noteq> [] then Inl (MissingDependencies (check_deps w))
      else
        (let sub = joinpath (mk_path out) ''UDF_Exports'' in
         case (if subfolder c then mkdir w sub else None) of
           Some e \<Rightarrow> Inl (MkdirFailed e)
         | None \<Rightarrow>
             (let out_dir = (if subfolder c then sub else mk_path out);
                  disk1 = (if subfolder c then insert sub disk else disk);
                  collisions = (if skip_existing c then []
                                else find_collisions c disk1 out_dir (name_suffix w Preflight) fls)
              in if collisions \<noteq> [] \<and> \<not> askyesno w then Inl (OverwriteDeclined collisions)
                 else Inr (out_dir, disk1))))"

text \<open>
  The state a run starts from: the rows of the view, the files on disk, nothing produced,
  an empty log (\<^verbatim>\<open>_log_clear\<close>) and no archive.
\<close>

definition start_state :: "row list \<Rightarrow> path set \<Rightarrow> run_state" where
  "start_state rs disk = \<lparr>tree = rs, fs = disk, produced = [], trace = [], archive = None\<rparr>"

text \<open>
  \<^verbatim>\<open>_on_convert\<close> as a whole: a refusal, or the run of the worker it starts. The settings
  file, the state of the buttons and the log line that announces the batch are left out.
\<close>

definition on_convert :: "world \<Rightarrow> path set \<Rightarrow> queue \<Rightarrow> refusal + run_state" where
  "on_convert w disk q =
     (case preflight w disk (files q) of
        Inl r \<Rightarrow> Inl r
      | Inr (out_dir, disk1) \<Rightarrow>
          Inr (worker_run w out_dir (files q) (start_state (rows q) disk1)))"

text \<open>
  A sequence of enqueue calls, each with the files that are on disk when it is made.
\<close>

datatype enqueue = AddFiles "path set" "path list" | DropFiles "path set" "path list"

fun enqueue_all :: "enqueue list \<Rightarrow> queue \<Rightarrow> queue" where
  "enqueue_all [] q = q"
| "enqueue_all (AddFiles disk ps # cs) q = enqueue_all cs (add_files disk ps q)"
| "enqueue_all (DropFiles disk ps # cs) q = enqueue_all cs (on_drop_files disk ps q)"

section \<open>Observations and sample inputs\<close>

text \<open>The statuses a trace sets for one path, in order.\<close>

fun status_changes :: "event list \<Rightarrow> path \<Rightarrow> status list" where
  "status_changes [] p = []"
| "status_changes (SetStatus q s t a b # evs) p =
     (if q = p then s # status_changes evs p else status_changes evs p)"
| "status_changes (e # evs) p = status_changes evs p"

text \<open>
  A world in which nothing raises and nobody cancels, with the settings a fresh
  installation starts with and an output folder.
\<close>

definition default_config :: config where
  "default_config =
     \<lparr>output_dir = ''/out'', scaling = True, write_parquet = True, write_csv = True,
      user_message = [], subfolder = False, timestamp_suffix = False,
      skip_existing = True, zip_outputs = False\<rparr>"

definition quiet_world :: world where
  "quiet_world =
     \<lparr>ui = (\<lambda>m. default_config), stop_flag = (\<lambda>m. False),
      ts_now = (\<lambda>m. ''20250101_120000''),
      check_deps = [], mkdir = (\<lambda>p. None), askyesno = True, import_decoder = None,
      open_decoder = (\<lambda>i. None), read_bin_file = (\<lambda>i p b. None),
      add_user_meta_data = (\<lambda>i m. None), write_table = (\<lambda>i p. None),
      to_csv = (\<lambda>i p. None), zip_open = (\<lambda>p. None), zip_write = (\<lambda>p. None)\<rparr>"


text \<open>
  Three histories of the settings that start as \<open>default_config\<close>: in the first every
  setting the worker reads before its loop is changed afterwards; in the second
  skip-existing is unticked while the first item is processed; in the third zip-outputs
  is ticked before the loop ends.
\<close>

definition edited_in_flight :: "moment \<Rightarrow> config" where
  "edited_in_flight m =
     (case m of
        AtItem i \<Rightarrow> default_config\<lparr>scaling := False, write_parquet := False, write_csv := False,
                                    user_message := ''late'', timestamp_suffix := True\<rparr>
      | AtEnd \<Rightarrow> default_config\<lparr>write_csv := False, user_message := ''later''\<rparr>
      | _ \<Rightarrow> default_config)"

definition skip_unticked_in_flight :: "moment \<Rightarrow> config" where
  "skip_unticked_in_flight m =
     (case m of
        AtItem i \<Rightarrow> default_config\<lparr>skip_existing := (i < 2)\<rparr>
      | AtEnd \<Rightarrow> default_config\<lparr>skip_existing := False\<rparr>
      | _ \<Rightarrow> default_config)"

definition zip_ticked_in_flight :: "moment \<Rightarrow> config" where
  "zip_ticked_in_flight m =
     (case m of AtEnd \<Rightarrow> default_config\<lparr>zip_outputs := True\<rparr> | _ \<Rightarrow> default_config)"

text \<open>
  The status changes and progress values of a trace, without the log lines; and the
  statuses among them that belong to one path.
\<close>

datatype milestone = Status path status | Progress nat

fun milestones :: "event list \<Rightarrow> milestone list" where
  "milestones [] = []"
| "milestones (SetStatus p s t a b # evs) = Status p s # milestones evs"
| "milestones (SetProgress n # evs) = Progress n # milestones evs"
| "milestones (e # evs) = milestones evs"

fun statuses_of :: "milestone list \<Rightarrow> path \<Rightarrow> status list" where
  "statuses_of [] p = []"
| "statuses_of (Status q s # ms) p = (if q = p then s # statuses_of ms p else statuses_of ms p)"
| "statuses_of (Progress n # ms) p = statuses_of ms p"

text \<open>
  The form of the milestones of a loop over a list of files that starts at a given
  index: each file is set to Running, then to Done, Skipped or Error, then the progress
  bar is set to its index; or one file is set to Cancelled and nothing follows.
\<close>

inductive run_shape :: "nat \<Rightarrow> path list \<Rightarrow> milestone list \<Rightarrow> bool" where
  finished: "run_shape idx [] []"
| cancelled: "run_shape idx (f # fls) [Status f Cancelled]"
| processed:
    "s \<in> {Done, Skipped, Error} \<Longrightarrow> run_shape (Suc idx) fls ms \<Longrightarrow>
     run_shape idx (f # fls) (Status f Running # Status f s # Progress idx # ms)"

text \<open>
  The quiet world in which Cancel is pressed while the first item is being processed:
  the flag is seen set from the second item on.
\<close>

definition cancel_during_first :: world where
  "cancel_during_first =
     quiet_world\<lparr>stop_flag := (\<lambda>m. case m of AtItem i \<Rightarrow> 2 \<le> i | AtEnd \<Rightarrow> True | _ \<Rightarrow> False)\<rparr>"

text \<open>Three files added to an empty queue through the file dialog.\<close>

definition three_queued :: queue where
  "three_queued =
     add_files {Path ''/'' [''in'', ''a.udf''], Path ''/'' [''in'', ''b.bin''],
                Path ''/'' [''in'', ''c.udf'']}
       [Path ''/'' [''in'', ''a.udf''], Path ''/'' [''in'', ''b.bin''],
        Path ''/'' [''in'', ''c.udf'']]
       \<lparr>files = [], rows = []\<rparr>"

text \<open>
  The quiet world in which reading the first item fails; and the one in which, for the
  first item, the Parquet file is written and the CSV write fails, with zip-outputs on.
\<close>

definition broken_first :: world where
  "broken_first =
     quiet_world\<lparr>read_bin_file := (\<lambda>i p b. if i = 1 then Some ''bad header'' else None)\<rparr>"


text \<open>
  The quiet world with the timestamp suffix on and skip-existing off, in which the clock
  moves on by one second between the collision check and the start of the worker, and
  in which the user would decline to overwrite if asked.
\<close>

definition clock_ticks :: world where
  "clock_ticks =
     quiet_world\<lparr>ui := (\<lambda>m. default_config\<lparr>timestamp_suffix := True, skip_existing := False\<rparr>),
                  ts_now := (\<lambda>m. if m = Preflight then ''20250101_120000''
                                   else ''20250101_120001''),
                  askyesno := False\<rparr>"

text \<open>
  The view after a list of events: what the \<^verbatim>\<open>_set_status\<close> calls among them do to the
  rows, one after the other. Log lines and progress values leave the rows alone.
\<close>

fun apply_event :: "event \<Rightarrow> row list \<Rightarrow> row list" where
  "apply_event (SetStatus p s t a b) rs = set_status_rows p s t a b rs"
| "apply_event e rs = rs"

fun replay :: "event list \<Rightarrow> row list \<Rightarrow> row list" where
  "replay [] rs = rs"
| "replay (e # evs) rs = replay evs (apply_event e rs)"

text \<open>
  One file added to an empty queue, converted once in the quiet world with an empty
  output folder, and converted a second time without touching the queue: the second run
  starts from the view and the disk the first one left.
\<close>

definition one_queued :: queue where
  "one_queued =
     add_files {Path ''/'' [''in'', ''a.udf'']} [Path ''/'' [''in'', ''a.udf'']]
       \<lparr>files = [], rows = []\<rparr>"

definition first_convert :: run_state where
  "first_convert =
     worker_run quiet_world (Path ''/'' [''out'']) (files one_queued)
       (start_state (rows one_queued) {Path ''/'' [''out'']})"

definition second_convert :: run_state where
  "second_convert =
     worker_run quiet_world (Path ''/'' [''out'']) (files one_queued)
       (start_state (tree first_convert) (fs first_convert))"

text \<open>The quiet world in which writing the Parquet file of the first item fails.\<close>

definition parquet_fails_first :: world where
  "parquet_fails_first =
     quiet_world\<lparr>write_table := (\<lambda>i p. if i = 1 then Some ''disk full'' else None)\<rparr>"

text \<open>
  The program never makes a path canonical: it compares \<^verbatim>\<open>Path\<close> values as they are.
  The canonical path of the specification is taken to be what \<^verbatim>\<open>Path.resolve\<close> gives for
  an absolute path on a disk without symbolic links: a component \<^verbatim>\<open>..\<close> removes the
  component before it.
\<close>

fun resolve_segs :: "string list \<Rightarrow> string list \<Rightarrow> string list" where
  "resolve_segs acc [] = acc"
| "resolve_segs acc (g # gs) =
     (if g = ''..'' then resolve_segs (butlast acc) gs else resolve_segs (acc @ [g]) gs)"

definition canonical :: "path \<Rightarrow> path" where
  "canonical p = Path (anchor p) (resolve_segs [] (segs p))"

text \<open>
  The quiet world in which skip-existing is on when Convert is pressed and is unticked
  while the first item is processed, and in which the user would decline to overwrite if
  asked.
\<close>

definition untick_and_decline :: world where
  "untick_and_decline = quiet_world\<lparr>ui := skip_unticked_in_flight, askyesno := False\<rparr>"

section \<open>Properties of the queue and the worker\<close>

subsection \<open>Enqueueing\<close>

lemma add_files_extends:
  "\<exists>ys. files (add_files disk ps q) = files q @ ys"
proof (induction ps arbitrary: q)
  case Nil
  show ?case by simp
next
  case (Cons P ps)
  let ?q' = "q\<lparr>files := files q @ [P], rows := tree_insert P Queued (rows q)\<rparr>"
  show ?case
  proof (cases "P \<in> disk \<and> P \<notin> set (files q)")
    case True
    from Cons [of ?q'] obtain ys where "files (add_files disk ps ?q') = (files q @ [P]) @ ys"
      by auto
    with True show ?thesis by simp
  next
    case False
    with Cons [of q] show ?thesis by auto
  qed
qed

lemma on_drop_files_extends:
  "\<exists>ys. files (on_drop_files disk ps q) = files q @ ys"
proof (induction ps arbitrary: q)
  case Nil
  show ?case by simp
next
  case (Cons P ps)
  let ?q' = "q\<lparr>files := files q @ [P], rows := tree_insert P Queued (rows q)\<rparr>"
  from Cons [of ?q'] obtain ys where "files (on_drop_files disk ps ?q') = (files q @ [P]) @ ys"
    by auto
  moreover from Cons [of q] obtain zs where "files (on_drop_files disk ps q) = files q @ zs"
    by auto
  ultimately show ?case by simp
qed

lemma add_files_distinct:
  "distinct (files q) \<Longrightarrow> distinct (files (add_files disk ps q))"
  by (induction ps arbitrary: q) auto

lemma on_drop_files_distinct:
  "distinct (files q) \<Longrightarrow> distinct (files (on_drop_files disk ps q))"
  by (induction ps arbitrary: q) auto

lemma enqueue_all_distinct:
  "distinct (files q) \<Longrightarrow> distinct (files (enqueue_all cs q))"
  by (induction cs q rule: enqueue_all.induct)
     (simp_all add: add_files_distinct on_drop_files_distinct)

lemma enqueue_all_extends:
  "\<exists>ys. files (enqueue_all cs q) = files q @ ys"
proof (induction cs q rule: enqueue_all.induct)
  case (1 q)
  show ?case by simp
next
  case (2 disk ps cs q)
  obtain ys where "files (add_files disk ps q) = files q @ ys"
    using add_files_extends by blast
  with 2 show ?case by auto
next
  case (3 disk ps cs q)
  obtain ys where "files (on_drop_files disk ps q) = files q @ ys"
    using on_drop_files_extends by blast
  with 3 show ?case by auto
qed

subsection \<open>What each step does to the state\<close>



lemma status_changes_append:
  "status_changes (xs @ ys) p = status_changes xs p @ status_changes ys p"
  by (induction xs p rule: status_changes.induct) simp_all

lemma trace_emit: "trace (emit e st) = trace st @ [e]"
  by (simp add: emit_def)

lemma trace_set_status:
  "trace (set_status p s t a b st) = trace st @ [SetStatus p s t a b]"
  by (simp add: set_status_def emit_def)

lemma fs_emit: "fs (emit e st) = fs st"
  by (simp add: emit_def)

lemma fs_set_status: "fs (set_status p s t a b st) = fs st"
  by (simp add: set_status_def emit_def)

lemma produced_emit: "produced (emit e st) = produced st"
  by (simp add: emit_def)

lemma produced_set_status: "produced (set_status p s t a b st) = produced st"
  by (simp add: set_status_def emit_def)

lemma tree_emit: "tree (emit e st) = tree st"
  by (simp add: emit_def)

lemma tree_set_status:
  "tree (set_status p s t a b st) = set_status_rows p s t a b (tree st)"
  by (simp add: set_status_def emit_def)

lemma trace_write_parquet_step: "trace (snd (write_parquet_step w idx po st)) = trace st"
  by (simp add: write_parquet_step_def split: option.splits)

lemma trace_write_csv_step: "trace (snd (write_csv_step w idx po st)) = trace st"
  by (simp add: write_csv_step_def split: option.splits)

lemma trace_with_decoder:
  "trace (snd (with_decoder w sn total' idx in_file pp cp st)) =
     trace st @
       (if open_decoder w idx = None then [LogReading idx total' (path_name in_file)] else [])"
proof (cases "open_decoder w idx")
  case (Some e)
  then show ?thesis by (simp add: with_decoder_def)
next
  case None
  let ?st1 = "emit (LogReading idx total' (path_name in_file)) st"
  obtain r st2 where p: "write_parquet_step w idx pp ?st1 = (r, st2)"
    by (cases "write_parquet_step w idx pp ?st1")
  have t2: "trace st2 = trace ?st1"
    using trace_write_parquet_step [of w idx pp ?st1] p by simp
  have t3: "trace (snd (write_csv_step w idx cp st2)) = trace ?st1"
    using trace_write_csv_step [of w idx cp st2] t2 by simp
  show ?thesis
    using None p t2 t3
    by (simp add: with_decoder_def Let_def trace_emit split: option.splits)
qed

subsection \<open>Which settings a run reads, and when\<close>

lemma with_decoder_ui:
  "with_decoder (w\<lparr>ui := u\<rparr>) sn total' idx in_file pp cp st =
   with_decoder w sn total' idx in_file pp cp st"
  by (simp add: with_decoder_def write_parquet_step_def write_csv_step_def Let_def
        cong: option.case_cong prod.case_cong)

lemma process_item_ui:
  assumes "skip_existing (u (AtItem idx)) = skip_existing (ui w (AtItem idx))"
  shows "process_item (w\<lparr>ui := u\<rparr>) sn out_dir total' idx in_file st =
         process_item w sn out_dir total' idx in_file st"
  unfolding process_item_def with_decoder_ui using assms by simp

lemma worker_loop_ui:
  assumes "\<And>i. skip_existing (u (AtItem i)) = skip_existing (ui w (AtItem i))"
  shows "worker_loop (w\<lparr>ui := u\<rparr>) sn out_dir total' idx fls st =
         worker_loop w sn out_dir total' idx fls st"
proof (induction fls arbitrary: idx st)
  case Nil
  show ?case by simp
next
  case (Cons f fls)
  have "process_item (w\<lparr>ui := u\<rparr>) sn out_dir total' idx f st =
        process_item w sn out_dir total' idx f st"
    by (rule process_item_ui) (rule assms)
  then show ?case
    using Cons.IH [of "Suc idx"] by simp
qed

lemma zip_all_ui: "zip_all (w\<lparr>ui := u\<rparr>) ps acc = zip_all w ps acc"
  by (induction ps arbitrary: acc) (auto split: option.splits)

lemma bundle_outputs_ui:
  assumes "zip_outputs (u AtEnd) = zip_outputs (ui w AtEnd)"
  shows "bundle_outputs (w\<lparr>ui := u\<rparr>) out_dir st = bundle_outputs w out_dir st"
  using assms by (simp add: bundle_outputs_def zip_all_ui Let_def cong: option.case_cong)

lemma take_snapshot_ui:
  assumes "write_parquet (u AtStart) = write_parquet (ui w AtStart)"
      and "write_csv (u AtStart) = write_csv (ui w AtStart)"
      and "scaling (u AtStart) = scaling (ui w AtStart)"
      and "user_message (u AtStart) = user_message (ui w AtStart)"
      and "timestamp_suffix (u AtStart) = timestamp_suffix (ui w AtStart)"
  shows "take_snapshot (w\<lparr>ui := u\<rparr>) = take_snapshot w"
  using assms by (simp add: take_snapshot_def name_suffix_def)

text \<open>
  The worker reads the two output formats, scaling, the user message and the timestamp
  check box once, before its loop. It reads skip-existing anew in every iteration and
  zip-outputs once after the loop. So two histories of the settings that agree on the
  first five at the start of the worker, on skip-existing at every item and on
  zip-outputs at the end give the same run, whatever else was changed in flight.
\<close>

theorem settings_read_by_the_worker:
  assumes "write_parquet (u AtStart) = write_parquet (ui w AtStart)"
      and "write_csv (u AtStart) = write_csv (ui w AtStart)"
      and "scaling (u AtStart) = scaling (ui w AtStart)"
      and "user_message (u AtStart) = user_message (ui w AtStart)"
      and "timestamp_suffix (u AtStart) = timestamp_suffix (ui w AtStart)"
      and "\<And>i. skip_existing (u (AtItem i)) = skip_existing (ui w (AtItem i))"
      and "zip_outputs (u AtEnd) = zip_outputs (ui w AtEnd)"
  shows "worker_run (w\<lparr>ui := u\<rparr>) out_dir fls st = worker_run w out_dir fls st"
proof -
  have sn: "take_snapshot (w\<lparr>ui := u\<rparr>) = take_snapshot w"
    using assms(1-5) by (rule take_snapshot_ui)
  have lp: "worker_loop (w\<lparr>ui := u\<rparr>) sn' out_dir n i fls st' = worker_loop w sn' out_dir n i fls st'"
    for sn' n i st'
    using assms(6) by (rule worker_loop_ui)
  have bd: "bundle_outputs (w\<lparr>ui := u\<rparr>) out_dir st' = bundle_outputs w out_dir st'" for st'
    using assms(7) by (rule bundle_outputs_ui)
  show ?thesis
    by (simp add: worker_run_def sn lp bd Let_def cong: option.case_cong sum.case_cong)
qed
theorem settings_read_by_the_worker_witness:
  "write_parquet (edited_in_flight AtStart) = write_parquet (ui quiet_world AtStart)
   \<and> write_csv (edited_in_flight AtStart) = write_csv (ui quiet_world AtStart)
   \<and> scaling (edited_in_flight AtStart) = scaling (ui quiet_world AtStart)
   \<and> user_message (edited_in_flight AtStart) = user_message (ui quiet_world AtStart)
   \<and> timestamp_suffix (edited_in_flight AtStart) = timestamp_suffix (ui quiet_world AtStart)
   \<and> (\<forall>i. skip_existing (edited_in_flight (AtItem i)) = skip_existing (ui quiet_world (AtItem i)))
   \<and> zip_outputs (edited_in_flight AtEnd) = zip_outputs (ui quiet_world AtEnd)
   \<and> edited_in_flight (AtItem 1) \<noteq> ui quiet_world (AtItem 1)
   \<and> worker_run (quiet_world\<lparr>ui := edited_in_flight\<rparr>) (Path ''/'' [''out''])
        [Path ''/'' [''in'', ''a.udf''], Path ''/'' [''in'', ''b.bin'']]
        (start_state [] {Path ''/'' [''out'']})
     = worker_run quiet_world (Path ''/'' [''out''])
        [Path ''/'' [''in'', ''a.udf''], Path ''/'' [''in'', ''b.bin'']]
        (start_state [] {Path ''/'' [''out'']})"
proof -
  have h: "write_parquet (edited_in_flight AtStart) = write_parquet (ui quiet_world AtStart)"
    "write_csv (edited_in_flight AtStart) = write_csv (ui quiet_world AtStart)"
    "scaling (edited_in_flight AtStart) = scaling (ui quiet_world AtStart)"
    "user_message (edited_in_flight AtStart) = user_message (ui quiet_world AtStart)"
    "timestamp_suffix (edited_in_flight AtStart) = timestamp_suffix (ui quiet_world AtStart)"
    "\<And>i. skip_existing (edited_in_flight (AtItem i)) = skip_existing (ui quiet_world (AtItem i))"
    "zip_outputs (edited_in_flight AtEnd) = zip_outputs (ui quiet_world AtEnd)"
    by (simp_all add: edited_in_flight_def quiet_world_def default_config_def)
  have d: "edited_in_flight (AtItem 1) \<noteq> ui quiet_world (AtItem 1)"
    by (simp add: edited_in_flight_def quiet_world_def default_config_def)
  show ?thesis
    using settings_read_by_the_worker [of edited_in_flight quiet_world, OF h]
    by (intro conjI allI) (rule h d, assumption?)+
qed

text \<open>
  The two settings that are read late do change a run in flight. With the output of the
  second file on disk, unticking skip-existing while the first file is processed makes
  the second file Done instead of Skipped; ticking zip-outputs before the loop ends makes
  the run write an archive. Both histories start with the same settings as the unchanged
  one.
\<close>

theorem late_settings_change_the_run:
  "skip_unticked_in_flight AtStart = ui quiet_world AtStart
   \<and> zip_ticked_in_flight AtStart = ui quiet_world AtStart
   \<and> status_changes
        (trace (worker_run quiet_world (Path ''/'' [''out''])
                  [Path ''/'' [''in'', ''a.udf''], Path ''/'' [''in'', ''b.bin'']]
                  (start_state [] {Path ''/'' [''out''], Path ''/'' [''out'', ''b.csv'']})))
        (Path ''/'' [''in'', ''b.bin''])
      = [Running, Skipped]
   \<and> status_changes
        (trace (worker_run (quiet_world\<lparr>ui := skip_unticked_in_flight\<rparr>) (Path ''/'' [''out''])
                  [Path ''/'' [''in'', ''a.udf''], Path ''/'' [''in'', ''b.bin'']]
                  (start_state [] {Path ''/'' [''out''], Path ''/'' [''out'', ''b.csv'']})))
        (Path ''/'' [''in'', ''b.bin''])
      = [Running, Done]
   \<and> archive (worker_run quiet_world (Path ''/'' [''out''])
                  [Path ''/'' [''in'', ''a.udf''], Path ''/'' [''in'', ''b.bin'']]
                  (start_state [] {Path ''/'' [''out''], Path ''/'' [''out'', ''b.csv'']}))
      = None
   \<and> archive (worker_run (quiet_world\<lparr>ui := zip_ticked_in_flight\<rparr>) (Path ''/'' [''out''])
                  [Path ''/'' [''in'', ''a.udf''], Path ''/'' [''in'', ''b.bin'']]
                  (start_state [] {Path ''/'' [''out''], Path ''/'' [''out'', ''b.csv'']}))
      = Some (Path ''/'' [''out'', ''udf_exports_20250101_120000.zip''],
              [''a.parquet'', ''a.csv''])"
  by code_simp

subsection \<open>The archive\<close>

lemma zip_all_eq:
  "zip_all w ps (entries, evs) =
     (entries @ map path_name (filter (\<lambda>p. zip_write w p = None) ps),
      evs @ concat (map (\<lambda>p. case zip_write w p of
                               None \<Rightarrow> []
                             | Some e \<Rightarrow> [LogZipFailed (path_name p) e]) ps))"
proof (induction ps arbitrary: entries evs)
  case Nil
  show ?case by simp
next
  case (Cons p ps)
  show ?case
  proof (cases "zip_write w p")
    case None
    then show ?thesis
      using Cons [of "entries @ [path_name p]" evs] by simp
  next
    case (Some e)
    then show ?thesis
      using Cons [of entries "evs @ [LogZipFailed (path_name p) e]"] by simp
  qed
qed



subsection \<open>The form of a run\<close>

lemma milestones_append: "milestones (xs @ ys) = milestones xs @ milestones ys"
  by (induction xs rule: milestones.induct) simp_all

lemma statuses_of_append: "statuses_of (xs @ ys) p = statuses_of xs p @ statuses_of ys p"
  by (induction xs p rule: statuses_of.induct) simp_all

lemma status_changes_milestones: "status_changes evs p = statuses_of (milestones evs) p"
  by (induction evs p rule: status_changes.induct) simp_all

lemma process_item_milestones:
  "\<exists>s \<in> {Done, Skipped, Error}.
     milestones (trace (process_item w sn out_dir total' idx in_file st)) =
       milestones (trace st) @ [Status in_file Running, Status in_file s, Progress idx]"
proof -
  let ?st1 = "set_status in_file Running TagRun NoMark NoMark st"
  let ?pp = "parq_path sn out_dir in_file"
  let ?cp = "csv_path sn out_dir in_file"
  obtain r st2 where d: "with_decoder w sn total' idx in_file ?pp ?cp ?st1 = (r, st2)"
    by (cases "with_decoder w sn total' idx in_file ?pp ?cp ?st1")
  have t: "milestones (trace st2) = milestones (trace ?st1)"
    using trace_with_decoder [of w sn total' idx in_file ?pp ?cp ?st1] d
    by (simp add: milestones_append)
  show ?thesis
  proof (cases "skip_existing (ui w (AtItem idx))
                \<and> (on_disk (fs ?st1) ?pp \<or> on_disk (fs ?st1) ?cp)")
    case True
    then show ?thesis
      by (simp add: process_item_def Let_def trace_emit trace_set_status milestones_append)
  next
    case False
    with d t show ?thesis
      by (cases r)
         (simp_all add: process_item_def Let_def trace_emit trace_set_status milestones_append)
  qed
qed

lemma worker_loop_shape:
  "\<exists>ms. milestones (trace (worker_loop w sn out_dir total' idx fls st)) =
           milestones (trace st) @ ms \<and> run_shape idx fls ms"
proof (induction fls arbitrary: idx st)
  case Nil
  show ?case by (simp add: run_shape.finished)
next
  case (Cons f fls)
  show ?case
  proof (cases "stop_flag w (AtItem idx)")
    case True
    then show ?thesis
      by (simp add: trace_set_status milestones_append run_shape.cancelled)
  next
    case False
    let ?st' = "process_item w sn out_dir total' idx f st"
    obtain s where s: "s \<in> {Done, Skipped, Error}"
      and m: "milestones (trace ?st') =
                milestones (trace st) @ [Status f Running, Status f s, Progress idx]"
      using process_item_milestones [of w sn out_dir total' idx f st] by blast
    obtain ms where ms: "milestones (trace (worker_loop w sn out_dir total' (Suc idx) fls ?st')) =
                milestones (trace ?st') @ ms" and sh: "run_shape (Suc idx) fls ms"
      using Cons [of "Suc idx" ?st'] by blast
    have "run_shape idx (f # fls) (Status f Running # Status f s # Progress idx # ms)"
      using s sh by (rule run_shape.processed)
    with False m ms show ?thesis by simp
  qed
qed

lemma worker_loop_append:
  assumes "\<forall>j < length xs. \<not> stop_flag w (AtItem (idx + j))"
  shows "worker_loop w sn out_dir total' idx (xs @ ys) st =
         worker_loop w sn out_dir total' (idx + length xs) ys
           (worker_loop w sn out_dir total' idx xs st)"
  using assms
proof (induction xs arbitrary: idx st)
  case Nil
  show ?case by simp
next
  case (Cons x xs)
  have here: "\<not> stop_flag w (AtItem idx)"
    using Cons.prems by force
  have later: "\<forall>j < length xs. \<not> stop_flag w (AtItem (Suc idx + j))"
    using Cons.prems by force
  show ?case
    using here Cons.IH [OF later] by simp
qed

lemma milestones_zip_failures:
  "milestones (concat (map (\<lambda>p. case zip_write w p of
                                    None \<Rightarrow> []
                                  | Some e \<Rightarrow> [LogZipFailed (path_name p) e]) ps)) = []"
  by (induction ps) (auto split: option.splits)

lemma bundle_outputs_milestones:
  "milestones (trace (case bundle_outputs w out_dir st of
                        Inl (e, st2) \<Rightarrow> fatal e st2
                      | Inr st2 \<Rightarrow> emit (EndRun b) st2)) = milestones (trace st)"
  by (simp add: bundle_outputs_def Let_def zip_all_eq emit_def fatal_def milestones_append
        milestones_zip_failures split: option.splits)

lemma worker_run_milestones:
  "milestones (trace (worker_run w out_dir fls st)) =
     (if import_decoder w = None
      then milestones (trace (worker_loop w (take_snapshot w) out_dir (length fls) 1 fls
                                (st\<lparr>produced := []\<rparr>)))
      else milestones (trace st))"
proof (cases "import_decoder w")
  case None
  then show ?thesis
    using bundle_outputs_milestones
      [where w = w and out_dir = out_dir and b = "stop_flag w AtEnd"
         and st = "worker_loop w (take_snapshot w) out_dir (length fls) 1 fls
                     (st\<lparr>produced := []\<rparr>)"]
    by (simp add: worker_run_def Let_def)
next
  case (Some e)
  then show ?thesis
    by (simp add: worker_run_def Let_def fatal_def emit_def milestones_append)
qed

lemma worker_run_shape:
  "\<exists>ms. milestones (trace (worker_run w out_dir fls st)) = milestones (trace st) @ ms
        \<and> (ms = [] \<or> run_shape 1 fls ms)"
proof (cases "import_decoder w")
  case None
  obtain ms where
    "milestones (trace (worker_loop w (take_snapshot w) out_dir (length fls) 1 fls
                          (st\<lparr>produced := []\<rparr>))) = milestones (trace (st\<lparr>produced := []\<rparr>)) @ ms"
    and "run_shape 1 fls ms"
    using worker_loop_shape by blast
  with None show ?thesis
    by (simp add: worker_run_milestones)
next
  case (Some e)
  then show ?thesis
    by (simp add: worker_run_milestones)
qed

lemma run_shape_absent:
  "run_shape idx fls ms \<Longrightarrow> p \<notin> set fls \<Longrightarrow> statuses_of ms p = []"
  by (induction rule: run_shape.induct) auto

lemma run_shape_statuses:
  "run_shape idx fls ms \<Longrightarrow> distinct fls \<Longrightarrow>
   statuses_of ms p \<in> {[], [Cancelled], [Running, Done], [Running, Skipped], [Running, Error]}"
proof (induction rule: run_shape.induct)
  case (finished idx)
  show ?case by simp
next
  case (cancelled idx f fls)
  show ?case by simp
next
  case (processed s idx fls ms f)
  show ?case
  proof (cases "f = p")
    case True
    with processed.prems have "p \<notin> set fls" by simp
    with processed.hyps(2) have "statuses_of ms p = []" by (rule run_shape_absent)
    with True processed.hyps(1) show ?thesis by auto
  next
    case False
    with processed show ?thesis by simp
  qed
qed
subsection \<open>Progress\<close>

lemma run_shape_after_status:
  "run_shape idx fls ms \<Longrightarrow> ms = pre @ Status f s # post \<Longrightarrow>
   (s \<in> {Done, Skipped, Error} \<longrightarrow>
      (\<exists>i post'. post = Progress i # post' \<and> idx \<le> i \<and> i - idx < length fls
                  \<and> fls ! (i - idx) = f))
   \<and> (s = Cancelled \<longrightarrow> post = [])"
proof (induction arbitrary: pre rule: run_shape.induct)
  case (finished idx)
  then show ?case by simp
next
  case (cancelled idx g fls)
  then show ?case by (cases pre) auto
next
  case (processed s0 idx fls ms g)
  show ?case
  proof (cases pre)
    case Nil
    with processed.prems show ?thesis by auto
  next
    case (Cons x1 pre1)
    show ?thesis
    proof (cases pre1)
      case Nil
      with Cons processed.prems processed.hyps(1) show ?thesis by auto
    next
      case (Cons x2 pre2)
      note c2 = this
      show ?thesis
      proof (cases pre2)
        case Nil
        with c2 \<open>pre = x1 # pre1\<close> processed.prems show ?thesis by auto
      next
        case (Cons x3 pre3)
        with c2 \<open>pre = x1 # pre1\<close> processed.prems
        have ms: "ms = pre3 @ Status f s # post" and pre: "pre = x1 # x2 # x3 # pre3"
          by auto
        note ih = processed.IH [OF ms]
        have a: "s \<in> {Done, Skipped, Error} \<longrightarrow>
                 (\<exists>i post'. post = Progress i # post' \<and> idx \<le> i \<and> i - idx < length (g # fls)
                    \<and> (g # fls) ! (i - idx) = f)"
        proof
          assume "s \<in> {Done, Skipped, Error}"
          with ih obtain i post' where p: "post = Progress i # post'" "Suc idx \<le> i"
            "i - Suc idx < length fls" "fls ! (i - Suc idx) = f"
            by blast
          from p(2) have "i - idx = Suc (i - Suc idx)" by simp
          with p show "\<exists>i post'. post = Progress i # post' \<and> idx \<le> i \<and> i - idx < length (g # fls)
                    \<and> (g # fls) ! (i - idx) = f"
            by (intro exI [of _ i] exI [of _ post']) simp
        qed
        have b: "s = Cancelled \<longrightarrow> post = []"
          using ih by blast
        from a b show ?thesis by blast
      qed
    qed
  qed
qed

text \<open>
  C4, as the code has it. In the run that \<^verbatim>\<open>_on_convert\<close> starts, whenever an item is
  set to Done, Skipped or Error, the next thing that happens to the display, log lines
  apart, is that the progress bar is set to the index of that item in the queue (the
  total is the bar's maximum, set when the batch starts). When an item is set to
  Cancelled, no status change and no progress value follows: the cancelled item gets
  no progress event.
\<close>

theorem progress_after_processed_items:
  assumes "milestones (trace (worker_run w out_dir fls (start_state rs disk))) =
             pre @ Status f s # post"
  shows "(s \<in> {Done, Skipped, Error} \<longrightarrow>
            (\<exists>i post'. post = Progress i # post' \<and> 1 \<le> i \<and> i \<le> length fls
                        \<and> fls ! (i - 1) = f))
         \<and> (s = Cancelled \<longrightarrow> post = [])"
proof -
  obtain ms where m: "milestones (trace (worker_run w out_dir fls (start_state rs disk))) =
                        milestones (trace (start_state rs disk)) @ ms"
    and sh: "ms = [] \<or> run_shape 1 fls ms"
    using worker_run_shape by blast
  from m assms have eq: "ms = pre @ Status f s # post"
    by (simp add: start_state_def)
  with sh have "run_shape 1 fls ms" by auto
  from run_shape_after_status [OF this eq] show ?thesis
    by (auto simp: less_eq_Suc_le)
qed

theorem progress_after_processed_items_witness:
  "milestones (trace (worker_run cancel_during_first (Path ''/'' [''out''])
                        [Path ''/'' [''in'', ''a.udf''], Path ''/'' [''in'', ''b.bin'']]
                        (start_state [] {Path ''/'' [''out'']})))
   = [Status (Path ''/'' [''in'', ''a.udf'']) Running]
     @ Status (Path ''/'' [''in'', ''a.udf'']) Done
     # [Progress 1, Status (Path ''/'' [''in'', ''b.bin'']) Cancelled]
   \<and> (\<exists>i post'. [Progress 1, Status (Path ''/'' [''in'', ''b.bin'']) Cancelled] = Progress i # post'
         \<and> 1 \<le> i \<and> i \<le> length [Path ''/'' [''in'', ''a.udf''], Path ''/'' [''in'', ''b.bin'']]
         \<and> [Path ''/'' [''in'', ''a.udf''], Path ''/'' [''in'', ''b.bin'']] ! (i - 1)
             = Path ''/'' [''in'', ''a.udf''])"
proof -
  have h: "milestones (trace (worker_run cancel_during_first (Path ''/'' [''out''])
                        [Path ''/'' [''in'', ''a.udf''], Path ''/'' [''in'', ''b.bin'']]
                        (start_state [] {Path ''/'' [''out'']})))
   = [Status (Path ''/'' [''in'', ''a.udf'']) Running]
     @ Status (Path ''/'' [''in'', ''a.udf'']) Done
     # [Progress 1, Status (Path ''/'' [''in'', ''b.bin'']) Cancelled]"
    by code_simp
  show ?thesis
    using h progress_after_processed_items [OF h] by blast
qed

text \<open>
  C4, as the specification states it, fails for the cancelled item: the second file is
  set to Cancelled and the progress bar is never set to 2.
\<close>

theorem no_progress_for_cancelled_counterexample:
  "status_changes
     (trace (worker_run cancel_during_first (Path ''/'' [''out''])
               [Path ''/'' [''in'', ''a.udf''], Path ''/'' [''in'', ''b.bin'']]
               (start_state [] {Path ''/'' [''out'']})))
     (Path ''/'' [''in'', ''b.bin''])
   = [Cancelled]
   \<and> SetProgress 2
       \<notin> set (trace (worker_run cancel_during_first (Path ''/'' [''out''])
                        [Path ''/'' [''in'', ''a.udf''], Path ''/'' [''in'', ''b.bin'']]
                        (start_state [] {Path ''/'' [''out'']})))"
  by code_simp

subsection \<open>Rows of the view\<close>

lemma map_row_path_set_status_rows:
  "map row_path (set_status_rows p s t a b rs) = map row_path rs"
  by (induction rs) simp_all

lemma set_status_rows_other:
  "j < length rs \<Longrightarrow> row_path (rs ! j) \<noteq> p \<Longrightarrow> set_status_rows p s t a b rs ! j = rs ! j"
proof (induction rs arbitrary: j)
  case Nil
  then show ?case by simp
next
  case (Cons r rs)
  show ?case
  proof (cases j)
    case 0
    with Cons.prems show ?thesis by simp
  next
    case (Suc k)
    with Cons.prems Cons.IH [of k] show ?thesis by simp
  qed
qed

lemma tree_write_parquet_step: "tree (snd (write_parquet_step w idx po st)) = tree st"
  by (simp add: write_parquet_step_def split: option.splits)

lemma tree_write_csv_step: "tree (snd (write_csv_step w idx po st)) = tree st"
  by (simp add: write_csv_step_def split: option.splits)

lemma tree_with_decoder:
  "tree (snd (with_decoder w sn total' idx in_file pp cp st)) = tree st"
proof (cases "open_decoder w idx")
  case (Some e)
  then show ?thesis by (simp add: with_decoder_def)
next
  case None
  let ?st1 = "emit (LogReading idx total' (path_name in_file)) st"
  obtain r st2 where p: "write_parquet_step w idx pp ?st1 = (r, st2)"
    by (cases "write_parquet_step w idx pp ?st1")
  have t2: "tree st2 = tree st"
    using tree_write_parquet_step [of w idx pp ?st1] p by (simp add: tree_emit)
  have t3: "tree (snd (write_csv_step w idx cp st2)) = tree st"
    using tree_write_csv_step [of w idx cp st2] t2 by simp
  show ?thesis
    using None p t2 t3
    by (simp add: with_decoder_def Let_def tree_emit split: option.splits)
qed

lemma process_item_skip:
  assumes "skip_existing (ui w (AtItem idx))"
      and "on_disk (fs st) (parq_path sn out_dir in_file)
           \<or> on_disk (fs st) (csv_path sn out_dir in_file)"
  shows "process_item w sn out_dir total' idx in_file st =
           emit (SetProgress idx)
             (emit (LogSkipped idx total' (path_name in_file))
                (set_status in_file Skipped TagWait
                   (if on_disk (fs st) (parq_path sn out_dir in_file)
                    then CheckExisting else NoMark)
                   (if on_disk (fs st) (csv_path sn out_dir in_file)
                    then CheckExisting else NoMark)
                   (set_status in_file Running TagRun NoMark NoMark st)))"
proof -
  let ?st1 = "set_status in_file Running TagRun NoMark NoMark st"
  have c: "skip_existing (ui w (AtItem idx))
           \<and> (on_disk (fs ?st1) (parq_path sn out_dir in_file)
                \<or> on_disk (fs ?st1) (csv_path sn out_dir in_file))"
    using assms by (simp add: fs_set_status)
  show ?thesis
    unfolding process_item_def Let_def if_P [OF c] by (simp only: fs_set_status)
qed

lemma process_item_convert:
  assumes "\<not> (skip_existing (ui w (AtItem idx))
              \<and> (on_disk (fs st) (parq_path sn out_dir in_file)
                   \<or> on_disk (fs st) (csv_path sn out_dir in_file)))"
      and d: "with_decoder w sn total' idx in_file (parq_path sn out_dir in_file)
                (csv_path sn out_dir in_file)
                (set_status in_file Running TagRun NoMark NoMark st) = (r, st2)"
  shows "process_item w sn out_dir total' idx in_file st =
           (case r of
              None \<Rightarrow>
                emit (SetProgress idx)
                  (emit (LogFinished idx total' (path_name in_file))
                     (set_status in_file Done TagOk
                        (if parq_path sn out_dir in_file \<noteq> None then Check else NoMark)
                        (if csv_path sn out_dir in_file \<noteq> None then Check else NoMark) st2))
            | Some e \<Rightarrow>
                emit (SetProgress idx)
                  (emit LogTraceback
                     (emit (LogError (path_name in_file) e)
                        (set_status in_file Error TagErr NoMark NoMark st2))))"
proof -
  let ?st1 = "set_status in_file Running TagRun NoMark NoMark st"
  have c: "\<not> (skip_existing (ui w (AtItem idx))
           \<and> (on_disk (fs ?st1) (parq_path sn out_dir in_file)
                \<or> on_disk (fs ?st1) (csv_path sn out_dir in_file)))"
    using assms(1) by (simp add: fs_set_status)
  show ?thesis
    unfolding process_item_def Let_def if_not_P [OF c] d by (cases r) simp_all
qed

lemma tree_process_item:
  "\<exists>s t a b. tree (process_item w sn out_dir total' idx in_file st) =
     set_status_rows in_file s t a b
       (set_status_rows in_file Running TagRun NoMark NoMark (tree st))"
proof -
  let ?st1 = "set_status in_file Running TagRun NoMark NoMark st"
  let ?pp = "parq_path sn out_dir in_file"
  let ?cp = "csv_path sn out_dir in_file"
  obtain r st2 where d: "with_decoder w sn total' idx in_file ?pp ?cp ?st1 = (r, st2)"
    by (cases "with_decoder w sn total' idx in_file ?pp ?cp ?st1")
  have t: "tree st2 = set_status_rows in_file Running TagRun NoMark NoMark (tree st)"
    using tree_with_decoder [of w sn total' idx in_file ?pp ?cp ?st1] d
    by (simp add: tree_set_status)
  show ?thesis
  proof (cases "skip_existing (ui w (AtItem idx))
                \<and> (on_disk (fs st) ?pp \<or> on_disk (fs st) ?cp)")
    case True
    then have "tree (process_item w sn out_dir total' idx in_file st) =
          set_status_rows in_file Skipped TagWait
            (if on_disk (fs st) ?pp then CheckExisting else NoMark)
            (if on_disk (fs st) ?cp then CheckExisting else NoMark)
            (set_status_rows in_file Running TagRun NoMark NoMark (tree st))"
      by (simp only: process_item_skip tree_emit tree_set_status)
    then show ?thesis by blast
  next
    case False
    note conv = process_item_convert [OF False d]
    show ?thesis
    proof (cases r)
      case None
      with conv t have "tree (process_item w sn out_dir total' idx in_file st) =
          set_status_rows in_file Done TagOk
            (if ?pp \<noteq> None then Check else NoMark) (if ?cp \<noteq> None then Check else NoMark)
            (set_status_rows in_file Running TagRun NoMark NoMark (tree st))"
        by (simp only: option.case tree_emit tree_set_status)
      then show ?thesis by blast
    next
      case (Some e)
      with conv t have "tree (process_item w sn out_dir total' idx in_file st) =
          set_status_rows in_file Error TagErr NoMark NoMark
            (set_status_rows in_file Running TagRun NoMark NoMark (tree st))"
        by (simp only: option.case tree_emit tree_set_status)
      then show ?thesis by blast
    qed
  qed
qed

lemma process_item_rows:
  "map row_path (tree (process_item w sn out_dir total' idx in_file st)) = map row_path (tree st)"
  "j < length (tree st) \<Longrightarrow> row_path (tree st ! j) \<noteq> in_file \<Longrightarrow>
     tree (process_item w sn out_dir total' idx in_file st) ! j = tree st ! j"
proof -
  obtain s t a b where e: "tree (process_item w sn out_dir total' idx in_file st) =
     set_status_rows in_file s t a b
       (set_status_rows in_file Running TagRun NoMark NoMark (tree st))"
    using tree_process_item by blast
  show "map row_path (tree (process_item w sn out_dir total' idx in_file st)) =
        map row_path (tree st)"
    by (simp add: e map_row_path_set_status_rows)
  assume j: "j < length (tree st)" "row_path (tree st ! j) \<noteq> in_file"
  let ?rs1 = "set_status_rows in_file Running TagRun NoMark NoMark (tree st)"
  have r1: "?rs1 ! j = tree st ! j"
    using j by (rule set_status_rows_other)
  have "length ?rs1 = length (tree st)"
    using map_row_path_set_status_rows [of in_file Running TagRun NoMark NoMark "tree st"]
    by (metis length_map)
  with j r1 have "set_status_rows in_file s t a b ?rs1 ! j = ?rs1 ! j"
    by (intro set_status_rows_other) simp_all
  with r1 e show "tree (process_item w sn out_dir total' idx in_file st) ! j = tree st ! j"
    by simp
qed

lemma worker_loop_rows:
  "map row_path (tree (worker_loop w sn out_dir total' idx fls st)) = map row_path (tree st)
   \<and> (j < length (tree st) \<longrightarrow> row_path (tree st ! j) \<notin> set fls \<longrightarrow>
        tree (worker_loop w sn out_dir total' idx fls st) ! j = tree st ! j)"
proof (induction fls arbitrary: idx st)
  case Nil
  show ?case by simp
next
  case (Cons f fls)
  show ?case
  proof (cases "stop_flag w (AtItem idx)")
    case True
    then show ?thesis
      by (simp add: tree_set_status map_row_path_set_status_rows set_status_rows_other)
  next
    case False
    let ?st' = "process_item w sn out_dir total' idx f st"
    have p: "map row_path (tree ?st') = map row_path (tree st)"
      by (rule process_item_rows)
    then have len: "length (tree ?st') = length (tree st)"
      by (metis length_map)
    have ih: "map row_path (tree (worker_loop w sn out_dir total' (Suc idx) fls ?st')) =
                map row_path (tree ?st')
              \<and> (j < length (tree ?st') \<longrightarrow> row_path (tree ?st' ! j) \<notin> set fls \<longrightarrow>
                   tree (worker_loop w sn out_dir total' (Suc idx) fls ?st') ! j = tree ?st' ! j)"
      by (rule Cons.IH)
    have "tree (worker_loop w sn out_dir total' (Suc idx) fls ?st') ! j = tree st ! j"
      if j: "j < length (tree st)" "row_path (tree st ! j) \<notin> set (f # fls)"
    proof -
      from j have same: "tree ?st' ! j = tree st ! j"
        by (intro process_item_rows) simp_all
      with j ih len show ?thesis by simp
    qed
    with False ih p show ?thesis by simp
  qed
qed

lemma tree_worker_run:
  "tree (worker_run w out_dir fls st) =
     (if import_decoder w = None
      then tree (worker_loop w (take_snapshot w) out_dir (length fls) 1 fls (st\<lparr>produced := []\<rparr>))
      else tree st)"
  by (simp add: worker_run_def Let_def bundle_outputs_def zip_all_eq emit_def fatal_def
        split: option.splits)

subsection \<open>Cancellation\<close>

lemma statuses_of_member:
  "s \<in> set (statuses_of ms p) \<Longrightarrow> Status p s \<in> set ms"
  by (induction ms p rule: statuses_of.induct) (auto split: if_splits)

lemma run_shape_cancelled_last:
  assumes "run_shape idx fls ms" and "Status p Cancelled \<in> set ms"
  shows "ms \<noteq> [] \<and> last ms = Status p Cancelled"
proof -
  from assms(2) obtain pre post where e: "ms = pre @ Status p Cancelled # post"
    by (auto dest: split_list)
  from run_shape_after_status [OF assms(1) e] have "post = []" by simp
  with e show ?thesis by simp
qed

lemma worker_loop_cancel_at:
  assumes "n < length fls"
      and "\<forall>j < n. \<not> stop_flag w (AtItem (idx + j))"
      and "stop_flag w (AtItem (idx + n))"
  shows "worker_loop w sn out_dir total' idx fls st =
           set_status (fls ! n) Cancelled TagErr NoMark NoMark
             (worker_loop w sn out_dir total' idx (take n fls) st)"
proof -
  have split: "fls = take n fls @ fls ! n # drop (Suc n) fls"
    using assms(1) by (simp add: id_take_nth_drop)
  have len: "length (take n fls) = n"
    using assms(1) by simp
  have quiet: "\<forall>j < length (take n fls). \<not> stop_flag w (AtItem (idx + j))"
    using assms(2) len by simp
  have "worker_loop w sn out_dir total' idx (take n fls @ fls ! n # drop (Suc n) fls) st =
        worker_loop w sn out_dir total' (idx + length (take n fls)) (fls ! n # drop (Suc n) fls)
          (worker_loop w sn out_dir total' idx (take n fls) st)"
    using quiet by (rule worker_loop_append)
  also have "\<dots> = set_status (fls ! n) Cancelled TagErr NoMark NoMark
                    (worker_loop w sn out_dir total' idx (take n fls) st)"
    using assms(3) len by simp
  finally show ?thesis
    using split by simp
qed

lemma distinct_nth_notin_take:
  assumes "distinct xs" and "n \<le> j" and "j < length xs"
  shows "xs ! j \<notin> set (take n xs)"
proof
  assume "xs ! j \<in> set (take n xs)"
  then obtain i where i: "i < length (take n xs)" "take n xs ! i = xs ! j"
    by (auto simp: in_set_conv_nth)
  then have "i < n" "i < length xs" "xs ! i = xs ! j"
    by simp_all
  with assms have "i = j"
    by (simp add: nth_eq_iff_index_eq)
  with \<open>i < n\<close> assms(2) show False by simp
qed

subsection \<open>Failure of one item\<close>

lemma process_item_trace:
  "\<exists>evs. trace (process_item w sn out_dir total' idx in_file st) =
           trace st @ SetStatus in_file Running TagRun NoMark NoMark # evs
         \<and> (\<forall>m. FatalErrorBox m \<notin> set evs)"
proof -
  let ?st1 = "set_status in_file Running TagRun NoMark NoMark st"
  let ?pp = "parq_path sn out_dir in_file"
  let ?cp = "csv_path sn out_dir in_file"
  obtain r st2 where d: "with_decoder w sn total' idx in_file ?pp ?cp ?st1 = (r, st2)"
    by (cases "with_decoder w sn total' idx in_file ?pp ?cp ?st1")
  have t: "trace st2 = trace st @ SetStatus in_file Running TagRun NoMark NoMark
             # (if open_decoder w idx = None then [LogReading idx total' (path_name in_file)] else [])"
    using trace_with_decoder [of w sn total' idx in_file ?pp ?cp ?st1] d
    by (simp add: trace_set_status)
  show ?thesis
  proof (cases "skip_existing (ui w (AtItem idx))
                \<and> (on_disk (fs st) ?pp \<or> on_disk (fs st) ?cp)")
    case True
    then show ?thesis
      by (simp add: process_item_skip trace_emit trace_set_status)
  next
    case False
    note conv = process_item_convert [OF False d]
    show ?thesis
      using conv t by (cases r) (simp_all add: trace_emit trace_set_status)
  qed
qed

lemma worker_loop_trace:
  "\<exists>evs. trace (worker_loop w sn out_dir total' idx fls st) = trace st @ evs
         \<and> (\<forall>m. FatalErrorBox m \<notin> set evs)"
proof (induction fls arbitrary: idx st)
  case Nil
  show ?case by simp
next
  case (Cons f fls)
  show ?case
  proof (cases "stop_flag w (AtItem idx)")
    case True
    then show ?thesis by (simp add: trace_set_status)
  next
    case False
    let ?st' = "process_item w sn out_dir total' idx f st"
    obtain e1 where e1: "trace ?st' = trace st @ SetStatus f Running TagRun NoMark NoMark # e1"
      "\<forall>m. FatalErrorBox m \<notin> set e1"
      using process_item_trace [of w sn out_dir total' idx f st] by blast
    obtain e2 where e2: "trace (worker_loop w sn out_dir total' (Suc idx) fls ?st') =
                           trace ?st' @ e2" "\<forall>m. FatalErrorBox m \<notin> set e2"
      using Cons [of "Suc idx" ?st'] by blast
    have "trace (worker_loop w sn out_dir total' idx (f # fls) st) =
            trace st @ (SetStatus f Running TagRun NoMark NoMark # e1 @ e2)"
      using False e1(1) e2(1) by simp
    moreover have "\<forall>m. FatalErrorBox m \<notin> set (SetStatus f Running TagRun NoMark NoMark # e1 @ e2)"
      using e1(2) e2(2) by simp
    ultimately show ?thesis by blast
  qed
qed

lemma worker_loop_trace_head:
  "\<exists>evs. trace (worker_loop w sn out_dir total' idx (f # fls) st) =
           trace st @ SetStatus f (if stop_flag w (AtItem idx) then Cancelled else Running)
                        (if stop_flag w (AtItem idx) then TagErr else TagRun) NoMark NoMark # evs"
proof (cases "stop_flag w (AtItem idx)")
  case True
  then show ?thesis by (simp add: trace_set_status)
next
  case False
  let ?st' = "process_item w sn out_dir total' idx f st"
  obtain e1 where e1: "trace ?st' = trace st @ SetStatus f Running TagRun NoMark NoMark # e1"
    using process_item_trace [of w sn out_dir total' idx f st] by blast
  obtain e2 where e2: "trace (worker_loop w sn out_dir total' (Suc idx) fls ?st') = trace ?st' @ e2"
    using worker_loop_trace [of w sn out_dir total' "Suc idx" fls ?st'] by blast
  show ?thesis
    using False e1 e2 by simp
qed

lemma process_item_error_trace:
  assumes "\<not> (skip_existing (ui w (AtItem idx))
              \<and> (on_disk (fs st) (parq_path sn out_dir in_file)
                   \<or> on_disk (fs st) (csv_path sn out_dir in_file)))"
      and "fst (with_decoder w sn total' idx in_file (parq_path sn out_dir in_file)
                  (csv_path sn out_dir in_file)
                  (set_status in_file Running TagRun NoMark NoMark st)) = Some e"
  shows "\<exists>evs. trace (process_item w sn out_dir total' idx in_file st) =
           trace st @ evs @ [SetStatus in_file Error TagErr NoMark NoMark,
                             LogError (path_name in_file) e, LogTraceback, SetProgress idx]"
proof -
  let ?st1 = "set_status in_file Running TagRun NoMark NoMark st"
  let ?pp = "parq_path sn out_dir in_file"
  let ?cp = "csv_path sn out_dir in_file"
  obtain r st2 where d: "with_decoder w sn total' idx in_file ?pp ?cp ?st1 = (r, st2)"
    by (cases "with_decoder w sn total' idx in_file ?pp ?cp ?st1")
  with assms(2) have r: "r = Some e" by simp
  have t: "trace st2 = trace st @ SetStatus in_file Running TagRun NoMark NoMark
             # (if open_decoder w idx = None then [LogReading idx total' (path_name in_file)] else [])"
    using trace_with_decoder [of w sn total' idx in_file ?pp ?cp ?st1] d
    by (simp add: trace_set_status)
  have "trace (process_item w sn out_dir total' idx in_file st) =
          trace st2 @ [SetStatus in_file Error TagErr NoMark NoMark,
                       LogError (path_name in_file) e, LogTraceback, SetProgress idx]"
    using process_item_convert [OF assms(1) d] r by (simp add: trace_emit trace_set_status)
  with t show ?thesis by simp
qed
lemma zip_failures_not_fatal:
  "FatalErrorBox m \<notin> set (concat (map (\<lambda>p. case zip_write w p of
                                    None \<Rightarrow> []
                                  | Some e \<Rightarrow> [LogZipFailed (path_name p) e]) ps))"
  by (induction ps) (auto split: option.splits)

lemma bundle_outputs_fatal:
  assumes "FatalErrorBox m \<in> set (trace (case bundle_outputs w out_dir st of
                                              Inl (e, st2) \<Rightarrow> fatal e st2
                                            | Inr st2 \<Rightarrow> emit (EndRun b) st2))"
      and "FatalErrorBox m \<notin> set (trace st)"
  shows "zip_open w (joinpath out_dir (''udf_exports_'' @ ts_now w AtEnd @ ''.zip'')) = Some m"
proof (cases "zip_outputs (ui w AtEnd) \<and> produced st \<noteq> []")
  case False
  with assms show ?thesis
    by (auto simp: bundle_outputs_def emit_def)
next
  case True
  show ?thesis
  proof (cases "zip_open w (joinpath out_dir (''udf_exports_'' @ ts_now w AtEnd @ ''.zip''))")
    case None
    with True assms zip_failures_not_fatal [of m w "produced st"] show ?thesis
      by (simp add: bundle_outputs_def Let_def zip_all_eq emit_def)
  next
    case (Some e)
    with True assms show ?thesis
      by (simp add: bundle_outputs_def Let_def emit_def fatal_def)
  qed
qed

lemma worker_run_fatal:
  assumes "FatalErrorBox m \<in> set (trace (worker_run w out_dir fls (start_state rs disk)))"
  shows "import_decoder w = Some m
         \<or> zip_open w (joinpath out_dir (''udf_exports_'' @ ts_now w AtEnd @ ''.zip'')) = Some m"
proof (cases "import_decoder w")
  case (Some e)
  with assms show ?thesis
    by (simp add: worker_run_def Let_def fatal_def emit_def start_state_def)
next
  case None
  let ?L = "worker_loop w (take_snapshot w) out_dir (length fls) 1 fls
              ((start_state rs disk)\<lparr>produced := []\<rparr>)"
  obtain evs where "trace ?L = trace ((start_state rs disk)\<lparr>produced := []\<rparr>) @ evs"
    and "\<forall>m. FatalErrorBox m \<notin> set evs"
    using worker_loop_trace by blast
  then have nof: "FatalErrorBox m \<notin> set (trace ?L)"
    by (simp add: start_state_def)
  have "FatalErrorBox m \<in> set (trace (case bundle_outputs w out_dir ?L of
                                              Inl (e, st2) \<Rightarrow> fatal e st2
                                            | Inr st2 \<Rightarrow> emit (EndRun (stop_flag w AtEnd)) st2))"
    using assms None by (simp add: worker_run_def Let_def)
  from bundle_outputs_fatal [OF this nof] show ?thesis by simp
qed

subsection \<open>Files written before an item fails\<close>

lemma worker_loop_at:
  assumes "i < length fls"
      and "\<forall>j \<le> i. \<not> stop_flag w (AtItem (idx + j))"
  shows "worker_loop w sn out_dir total' idx fls st =
           worker_loop w sn out_dir total' (Suc (idx + i)) (drop (Suc i) fls)
             (process_item w sn out_dir total' (idx + i) (fls ! i)
                (worker_loop w sn out_dir total' idx (take i fls) st))"
proof -
  have split: "fls = take i fls @ fls ! i # drop (Suc i) fls"
    using assms(1) by (simp add: id_take_nth_drop)
  have len: "length (take i fls) = i"
    using assms(1) by simp
  have quiet: "\<forall>j < length (take i fls). \<not> stop_flag w (AtItem (idx + j))"
    using assms(2) len by simp
  have here: "\<not> stop_flag w (AtItem (idx + i))"
    using assms(2) by simp
  have "worker_loop w sn out_dir total' idx (take i fls @ fls ! i # drop (Suc i) fls) st =
        worker_loop w sn out_dir total' (idx + length (take i fls)) (fls ! i # drop (Suc i) fls)
          (worker_loop w sn out_dir total' idx (take i fls) st)"
    using quiet by (rule worker_loop_append)
  also have "\<dots> = worker_loop w sn out_dir total' (Suc (idx + i)) (drop (Suc i) fls)
             (process_item w sn out_dir total' (idx + i) (fls ! i)
                (worker_loop w sn out_dir total' idx (take i fls) st))"
    using here len by simp
  finally show ?thesis
    using split by simp
qed





lemma finish_trace:
  "\<exists>evs. trace (case bundle_outputs w out_dir st of
                   Inl (e, st2) \<Rightarrow> fatal e st2
                 | Inr st2 \<Rightarrow> emit (EndRun b) st2) = trace st @ evs"
  by (simp add: bundle_outputs_def Let_def zip_all_eq emit_def fatal_def split: option.splits)




subsection \<open>The timestamp suffix\<close>

text \<open>
  C5 does not hold of the code. \<^verbatim>\<open>_on_convert\<close> calls \<^verbatim>\<open>_name_suffix\<close> for the collision
  check and \<^verbatim>\<open>_worker_run\<close> calls it again for the names it writes, and each call reads
  the clock. When a second passes in between, the check looks for
  \<^verbatim>\<open>a_20250101_120000.parquet\<close>, finds no collision and asks nothing, and the worker
  then writes \<^verbatim>\<open>a_20250101_120001.parquet\<close>, a file that was on disk before the batch.
\<close>

theorem suffix_recomputed_for_the_worker:
  "name_suffix clock_ticks Preflight = ''_20250101_120000''
   \<and> suffix (take_snapshot clock_ticks) = ''_20250101_120001''
   \<and> find_collisions (ui clock_ticks Preflight)
        {Path ''/'' [''out''], Path ''/'' [''out'', ''a_20250101_120001.parquet'']}
        (Path ''/'' [''out'']) (name_suffix clock_ticks Preflight)
        [Path ''/'' [''in'', ''a.udf'']]
      = []
   \<and> map_sum id produced
        (on_convert clock_ticks
           {Path ''/'' [''out''], Path ''/'' [''out'', ''a_20250101_120001.parquet'']}
           \<lparr>files = [Path ''/'' [''in'', ''a.udf'']], rows = []\<rparr>)
      = Inr [Path ''/'' [''out'', ''a_20250101_120001.parquet''],
             Path ''/'' [''out'', ''a_20250101_120001.csv'']]"
  by code_simp

subsection \<open>The view follows the status calls\<close>

lemma replay_append: "replay (xs @ ys) rs = replay ys (replay xs rs)"
  by (induction xs arbitrary: rs) simp_all

lemma map_row_path_apply_event: "map row_path (apply_event e rs) = map row_path rs"
  by (cases e) (simp_all add: map_row_path_set_status_rows)

lemma set_status_rows_hit:
  "distinct (map row_path rs) \<Longrightarrow> j < length rs \<Longrightarrow> row_path (rs ! j) = p \<Longrightarrow>
   status (set_status_rows p s t a b rs ! j) = s"
proof (induction rs arbitrary: j)
  case Nil
  then show ?case by simp
next
  case (Cons r rs)
  show ?case
  proof (cases j)
    case 0
    with Cons.prems show ?thesis by simp
  next
    case (Suc k)
    with Cons.prems have k: "k < length rs" "row_path (rs ! k) = p"
      by simp_all
    then have "p \<in> set (map row_path rs)"
      by (metis length_map nth_map nth_mem)
    with Cons.prems(1) have "row_path r \<noteq> p"
      by auto
    with Suc Cons.IH [of k] Cons.prems(1) k show ?thesis
      by simp
  qed
qed

lemma status_apply_event:
  assumes "distinct (map row_path rs)" and "j < length rs"
  shows "status (apply_event e rs ! j) =
           (case status_changes [e] (row_path (rs ! j)) of
              [] \<Rightarrow> status (rs ! j) | s # xs \<Rightarrow> s)"
proof (cases e)
  case (SetStatus p s t a b)
  show ?thesis
  proof (cases "row_path (rs ! j) = p")
    case True
    with assms SetStatus show ?thesis
      by (simp add: set_status_rows_hit)
  next
    case False
    with assms SetStatus show ?thesis
      by (simp add: set_status_rows_other)
  qed
qed simp_all

lemma status_replay:
  "distinct (map row_path rs) \<Longrightarrow> j < length rs \<Longrightarrow>
   status (replay evs rs ! j) =
     (if status_changes evs (row_path (rs ! j)) = [] then status (rs ! j)
      else last (status_changes evs (row_path (rs ! j))))"
proof (induction evs arbitrary: rs)
  case Nil
  show ?case by simp
next
  case (Cons e evs)
  let ?rs' = "apply_event e rs"
  let ?p = "row_path (rs ! j)"
  have paths: "map row_path ?rs' = map row_path rs"
    by (rule map_row_path_apply_event)
  then have len: "length ?rs' = length rs"
    by (metis length_map)
  have d: "distinct (map row_path ?rs')"
    using paths Cons.prems(1) by simp
  have j: "j < length ?rs'"
    using len Cons.prems(2) by simp
  have p: "row_path (?rs' ! j) = ?p"
    using paths Cons.prems(2) len by (metis nth_map)
  have ih: "status (replay evs ?rs' ! j) =
     (if status_changes evs ?p = [] then status (?rs' ! j)
      else last (status_changes evs ?p))"
    using Cons.IH [OF d j] p by simp
  have one: "status (?rs' ! j) =
           (case status_changes [e] ?p of [] \<Rightarrow> status (rs ! j) | s # xs \<Rightarrow> s)"
    using Cons.prems by (rule status_apply_event)
  have split: "status_changes (e # evs) ?p = status_changes [e] ?p @ status_changes evs ?p"
    using status_changes_append [of "[e]" evs ?p] by simp
  show ?case
  proof (cases "status_changes [e] ?p")
    case Nil
    with ih one split show ?thesis by simp
  next
    case (Cons s xs)
    then have "status_changes [e] ?p = [s]"
      by (cases e) (simp_all split: if_splits)
    with ih one split show ?thesis by simp
  qed
qed

lemma view_emit:
  "\<not> (\<exists>p s t a b. e = SetStatus p s t a b) \<Longrightarrow>
   trace (emit e st) = trace st @ [e] \<and> tree (emit e st) = replay [e] (tree st)"
  by (cases e) (simp_all add: emit_def)

lemma view_set_status:
  "trace (set_status p s t a b st) = trace st @ [SetStatus p s t a b]
   \<and> tree (set_status p s t a b st) = replay [SetStatus p s t a b] (tree st)"
  by (simp add: set_status_def emit_def)

lemma view_with_decoder:
  "\<exists>evs. trace (snd (with_decoder w sn total' idx in_file pp cp st)) = trace st @ evs
         \<and> tree (snd (with_decoder w sn total' idx in_file pp cp st)) = replay evs (tree st)"
proof -
  have "tree (snd (with_decoder w sn total' idx in_file pp cp st)) =
        replay (if open_decoder w idx = None then [LogReading idx total' (path_name in_file)] else [])
          (tree st)"
    by (simp add: tree_with_decoder)
  with trace_with_decoder [of w sn total' idx in_file pp cp st] show ?thesis
    by blast
qed

lemma view_process_item:
  "\<exists>evs. trace (process_item w sn out_dir total' idx in_file st) = trace st @ evs
         \<and> tree (process_item w sn out_dir total' idx in_file st) = replay evs (tree st)"
proof -
  let ?st1 = "set_status in_file Running TagRun NoMark NoMark st"
  let ?pp = "parq_path sn out_dir in_file"
  let ?cp = "csv_path sn out_dir in_file"
  obtain r st2 where d: "with_decoder w sn total' idx in_file ?pp ?cp ?st1 = (r, st2)"
    by (cases "with_decoder w sn total' idx in_file ?pp ?cp ?st1")
  obtain e1 where e1: "trace st2 = trace ?st1 @ e1" "tree st2 = replay e1 (tree ?st1)"
    using view_with_decoder [of w sn total' idx in_file ?pp ?cp ?st1] d by auto
  have v2: "trace st2 = trace st @ (SetStatus in_file Running TagRun NoMark NoMark # e1)"
           "tree st2 = replay (SetStatus in_file Running TagRun NoMark NoMark # e1) (tree st)"
    using e1 by (simp_all add: trace_set_status tree_set_status)
  show ?thesis
  proof (cases "skip_existing (ui w (AtItem idx))
                \<and> (on_disk (fs st) ?pp \<or> on_disk (fs st) ?cp)")
    case True
    let ?a = "if on_disk (fs st) ?pp then CheckExisting else NoMark"
    let ?b = "if on_disk (fs st) ?cp then CheckExisting else NoMark"
    let ?evs = "[SetStatus in_file Running TagRun NoMark NoMark,
                 SetStatus in_file Skipped TagWait ?a ?b,
                 LogSkipped idx total' (path_name in_file), SetProgress idx]"
    from True have "trace (process_item w sn out_dir total' idx in_file st) = trace st @ ?evs
         \<and> tree (process_item w sn out_dir total' idx in_file st) = replay ?evs (tree st)"
      by (simp add: process_item_skip trace_emit trace_set_status tree_emit tree_set_status)
    then show ?thesis by blast
  next
    case False
    note conv = process_item_convert [OF False d]
    show ?thesis
    proof (cases r)
      case None
      let ?a = "if ?pp \<noteq> None then Check else NoMark"
      let ?b = "if ?cp \<noteq> None then Check else NoMark"
      let ?evs = "(SetStatus in_file Running TagRun NoMark NoMark # e1)
                  @ [SetStatus in_file Done TagOk ?a ?b,
                     LogFinished idx total' (path_name in_file), SetProgress idx]"
      from None conv v2 have "trace (process_item w sn out_dir total' idx in_file st) = trace st @ ?evs
         \<and> tree (process_item w sn out_dir total' idx in_file st) = replay ?evs (tree st)"
        by (simp add: trace_emit trace_set_status tree_emit tree_set_status replay_append)
      then show ?thesis by blast
    next
      case (Some e)
      let ?evs = "(SetStatus in_file Running TagRun NoMark NoMark # e1)
                  @ [SetStatus in_file Error TagErr NoMark NoMark,
                     LogError (path_name in_file) e, LogTraceback, SetProgress idx]"
      from Some conv v2 have "trace (process_item w sn out_dir total' idx in_file st) = trace st @ ?evs
         \<and> tree (process_item w sn out_dir total' idx in_file st) = replay ?evs (tree st)"
        by (simp add: trace_emit trace_set_status tree_emit tree_set_status replay_append)
      then show ?thesis by blast
    qed
  qed
qed

lemma view_worker_loop:
  "\<exists>evs. trace (worker_loop w sn out_dir total' idx fls st) = trace st @ evs
         \<and> tree (worker_loop w sn out_dir total' idx fls st) = replay evs (tree st)"
proof (induction fls arbitrary: idx st)
  case Nil
  have "trace st = trace st @ [] \<and> tree st = replay [] (tree st)" by simp
  then show ?case by (simp del: append_Nil2)
next
  case (Cons f fls)
  show ?case
  proof (cases "stop_flag w (AtItem idx)")
    case True
    then show ?thesis
      using view_set_status [of f Cancelled TagErr NoMark NoMark st] by auto
  next
    case False
    let ?st' = "process_item w sn out_dir total' idx f st"
    obtain e1 where e1: "trace ?st' = trace st @ e1" "tree ?st' = replay e1 (tree st)"
      using view_process_item by blast
    obtain e2 where e2: "trace (worker_loop w sn out_dir total' (Suc idx) fls ?st') = trace ?st' @ e2"
      "tree (worker_loop w sn out_dir total' (Suc idx) fls ?st') = replay e2 (tree ?st')"
      using Cons by blast
    have "trace (worker_loop w sn out_dir total' idx (f # fls) st) = trace st @ (e1 @ e2)
          \<and> tree (worker_loop w sn out_dir total' idx (f # fls) st) = replay (e1 @ e2) (tree st)"
      using False e1 e2 by (simp add: replay_append)
    then show ?thesis by blast
  qed
qed
lemma replay_no_milestones: "milestones evs = [] \<Longrightarrow> replay evs rs = rs"
proof (induction evs arbitrary: rs)
  case Nil
  show ?case by simp
next
  case (Cons e evs)
  then show ?case by (cases e) simp_all
qed

lemma view_worker_run:
  "\<exists>evs. trace (worker_run w out_dir fls st) = trace st @ evs
         \<and> tree (worker_run w out_dir fls st) = replay evs (tree st)"
proof (cases "import_decoder w")
  case (Some e)
  then have "trace (worker_run w out_dir fls st) = trace st @ [EndRun True, FatalErrorBox e]
             \<and> tree (worker_run w out_dir fls st) = replay [EndRun True, FatalErrorBox e] (tree st)"
    by (simp add: worker_run_def Let_def fatal_def emit_def)
  then show ?thesis by blast
next
  case None
  let ?st = "st\<lparr>produced := []\<rparr>"
  let ?L = "worker_loop w (take_snapshot w) out_dir (length fls) 1 fls ?st"
  let ?R = "worker_run w out_dir fls st"
  obtain e1 where e1: "trace ?L = trace ?st @ e1" "tree ?L = replay e1 (tree ?st)"
    using view_worker_loop by blast
  have R: "?R = (case bundle_outputs w out_dir ?L of
                   Inl (e, st2) \<Rightarrow> fatal e st2
                 | Inr st2 \<Rightarrow> emit (EndRun (stop_flag w AtEnd)) st2)"
    using None by (simp add: worker_run_def Let_def)
  obtain more where more: "trace ?R = trace ?L @ more"
    unfolding R using finish_trace by blast
  have "milestones (trace ?R) = milestones (trace ?L)"
    using None by (simp add: worker_run_milestones)
  with more have "milestones more = []"
    by (simp add: milestones_append)
  then have quiet: "replay more (tree ?L) = tree ?L"
    by (rule replay_no_milestones)
  have "tree ?R = tree ?L"
    using None by (simp add: tree_worker_run)
  with quiet e1 more have "trace ?R = trace st @ (e1 @ more) \<and> tree ?R = replay (e1 @ more) (tree st)"
    by (simp add: replay_append)
  then show ?thesis by blast
qed

lemma row_status_of_run:
  assumes "distinct fls" and "map row_path rs = fls" and "j < length fls"
  shows "status (tree (worker_run w out_dir fls (start_state rs disk)) ! j) =
           (if status_changes (trace (worker_run w out_dir fls (start_state rs disk))) (fls ! j) = []
            then status (rs ! j)
            else last (status_changes (trace (worker_run w out_dir fls (start_state rs disk)))
                         (fls ! j)))"
proof -
  let ?R = "worker_run w out_dir fls (start_state rs disk)"
  obtain evs where "trace ?R = trace (start_state rs disk) @ evs"
    "tree ?R = replay evs (tree (start_state rs disk))"
    using view_worker_run by blast
  then have v: "tree ?R = replay (trace ?R) rs"
    by (simp add: start_state_def)
  have d: "distinct (map row_path rs)"
    using assms(1,2) by simp
  have len: "length rs = length fls"
    using assms(2) by (metis length_map)
  have p: "row_path (rs ! j) = fls ! j"
    using assms(2,3) len by (metis nth_map)
  have j: "j < length rs"
    using assms(3) len by simp
  show ?thesis
    using status_replay [OF d j, of "trace ?R"] v p by simp
qed

subsection \<open>Status transitions\<close>

text \<open>
  C6, as the code has it. Take a run over a queue without duplicates whose view has one
  row per queued file, in order. The statuses the run sets for any one item are, in
  order, none at all (the run ended before the item), Cancelled alone, or Running
  followed by exactly one of Done, Skipped and Error; and the item's row shows the last
  of them afterwards, or the status it had before the run when none was set. The run
  neither reads nor resets the status a row had before it.
\<close>

theorem item_status_sequences:
  assumes "distinct fls" and "map row_path rs = fls" and "j < length fls"
  shows "status_changes (trace (worker_run w out_dir fls (start_state rs disk))) p
           \<in> {[], [Cancelled], [Running, Done], [Running, Skipped], [Running, Error]}
       \<and> (\<exists>xs \<in> {[], [Cancelled], [Running, Done], [Running, Skipped], [Running, Error]}.
             status_changes (trace (worker_run w out_dir fls (start_state rs disk))) (fls ! j) = xs
             \<and> status (tree (worker_run w out_dir fls (start_state rs disk)) ! j) =
                 (if xs = [] then status (rs ! j) else last xs))"
proof -
  let ?R = "worker_run w out_dir fls (start_state rs disk)"
  obtain ms where m: "milestones (trace ?R) = milestones (trace (start_state rs disk)) @ ms"
    and sh: "ms = [] \<or> run_shape 1 fls ms"
    using worker_run_shape by blast
  have form: "statuses_of ms q \<in> {[], [Cancelled], [Running, Done], [Running, Skipped], [Running, Error]}"
    for q
    using sh assms(1) run_shape_statuses [of 1 fls ms q] by auto
  have m': "milestones (trace ?R) = ms"
    using m by (simp add: start_state_def)
  have sc: "status_changes (trace ?R) q = statuses_of ms q" for q
    by (simp only: status_changes_milestones m')
  have a: "status_changes (trace ?R) p
           \<in> {[], [Cancelled], [Running, Done], [Running, Skipped], [Running, Error]}"
    using form [of p] sc [of p] by simp
  have b: "status_changes (trace ?R) (fls ! j)
           \<in> {[], [Cancelled], [Running, Done], [Running, Skipped], [Running, Error]}"
    using form [of "fls ! j"] sc [of "fls ! j"] by simp
  have c: "status (tree ?R ! j) =
           (if status_changes (trace ?R) (fls ! j) = [] then status (rs ! j)
            else last (status_changes (trace ?R) (fls ! j)))"
    using assms by (rule row_status_of_run)
  from a b c show ?thesis by blast
qed

theorem item_status_sequences_witness:
  "distinct (files three_queued)
   \<and> map row_path (rows three_queued) = files three_queued
   \<and> 1 < length (files three_queued)
   \<and> (\<exists>xs \<in> {[], [Cancelled], [Running, Done], [Running, Skipped], [Running, Error]}.
         status_changes
           (trace (worker_run cancel_during_first (Path ''/'' [''out'']) (files three_queued)
                     (start_state (rows three_queued) {Path ''/'' [''out'']})))
           (files three_queued ! 1) = xs
         \<and> status (tree (worker_run cancel_during_first (Path ''/'' [''out''])
                            (files three_queued)
                            (start_state (rows three_queued) {Path ''/'' [''out'']})) ! 1)
             = (if xs = [] then status (rows three_queued ! 1) else last xs))
   \<and> map status (tree (worker_run cancel_during_first (Path ''/'' [''out''])
                            (files three_queued)
                            (start_state (rows three_queued) {Path ''/'' [''out'']})))
       = [Done, Cancelled, Queued]"
proof -
  have h1: "distinct (files three_queued)"
    by (simp add: three_queued_def)
  have h2: "map row_path (rows three_queued) = files three_queued"
    by (simp add: three_queued_def tree_insert_def)
  have h3: "1 < length (files three_queued)"
    by (simp add: three_queued_def)
  have v: "map status (tree (worker_run cancel_during_first (Path ''/'' [''out''])
                            (files three_queued)
                            (start_state (rows three_queued) {Path ''/'' [''out'']})))
       = [Done, Cancelled, Queued]"
    by code_simp
  show ?thesis
    using h1 h2 h3 v
      item_status_sequences [OF h1 h2 h3, of cancel_during_first "Path ''/'' [''out'']"
        "{Path ''/'' [''out'']}" "files three_queued ! 1"]
    by blast
qed

text \<open>
  C6, as the specification states it, fails twice. A queued file whose Parquet output is
  on disk is set to Running and only then to Skipped. And Done is not final: a file
  converted once shows Done, and a second Convert over the same queue sets the same row
  to Running and then to Skipped.
\<close>

theorem running_before_skipped_counterexample:
  "map status (rows one_queued) = [Queued]
   \<and> status_changes
        (trace (worker_run quiet_world (Path ''/'' [''out'']) (files one_queued)
                  (start_state (rows one_queued)
                     {Path ''/'' [''out''], Path ''/'' [''out'', ''a.parquet'']})))
        (Path ''/'' [''in'', ''a.udf''])
      = [Running, Skipped]
   \<and> map status
        (tree (worker_run quiet_world (Path ''/'' [''out'']) (files one_queued)
                  (start_state (rows one_queued)
                     {Path ''/'' [''out''], Path ''/'' [''out'', ''a.parquet'']})))
      = [Skipped]
   \<and> map status (tree first_convert) = [Done]
   \<and> status_changes (trace second_convert) (Path ''/'' [''in'', ''a.udf'']) = [Running, Skipped]
   \<and> map status (tree second_convert) = [Skipped]"
  by code_simp

text \<open>
  C3. Take a run over a queue without duplicates whose view has one row per queued file,
  in order, and let the stop flag be seen set for the first time at the boundary before
  item \<open>n + 1\<close>. Then the run does what the loop over the first \<open>n\<close> items does and
  after that only sets item \<open>n + 1\<close> to Cancelled, and the row of that item shows
  Cancelled when the run has ended. That item is never set to Running, no other item is
  ever set to Cancelled, and for every later item no status is set and its row is the row
  it had before the run, so an item that was Queued stays Queued.
\<close>

theorem cancellation_at_item_boundary:
  assumes "distinct fls"
      and "map row_path rs = fls"
      and "import_decoder w = None"
      and "n < length fls"
      and "\<forall>j < n. \<not> stop_flag w (AtItem (Suc j))"
      and "stop_flag w (AtItem (Suc n))"
  shows "milestones (trace (worker_run w out_dir fls (start_state rs disk))) =
           milestones (trace (worker_loop w (take_snapshot w) out_dir (length fls) 1 (take n fls)
                                (start_state rs disk)))
           @ [Status (fls ! n) Cancelled]
       \<and> status_changes (trace (worker_run w out_dir fls (start_state rs disk))) (fls ! n)
           = [Cancelled]
       \<and> status (tree (worker_run w out_dir fls (start_state rs disk)) ! n) = Cancelled
       \<and> (\<forall>p. Cancelled \<in> set (status_changes
                                  (trace (worker_run w out_dir fls (start_state rs disk))) p)
              \<longrightarrow> p = fls ! n)
       \<and> (\<forall>j. n < j \<and> j < length fls \<longrightarrow>
              status_changes (trace (worker_run w out_dir fls (start_state rs disk))) (fls ! j) = []
              \<and> tree (worker_run w out_dir fls (start_state rs disk)) ! j = rs ! j)"
proof -
  let ?st0 = "start_state rs disk"
  let ?sn = "take_snapshot w"
  let ?R = "worker_run w out_dir fls ?st0"
  let ?L = "worker_loop w ?sn out_dir (length fls) 1 fls ?st0"
  let ?P = "worker_loop w ?sn out_dir (length fls) 1 (take n fls) ?st0"
  let ?c = "fls ! n"
  have st0: "?st0\<lparr>produced := []\<rparr> = ?st0"
    by (simp add: start_state_def)
  have quiet: "\<forall>j < n. \<not> stop_flag w (AtItem (1 + j))"
    using assms(5) by simp
  have stop: "stop_flag w (AtItem (1 + n))"
    using assms(6) by simp
  have L: "?L = set_status ?c Cancelled TagErr NoMark NoMark ?P"
    using assms(4) quiet stop by (rule worker_loop_cancel_at)
  have RL: "milestones (trace ?R) = milestones (trace ?L)"
    using assms(3) by (simp add: worker_run_milestones st0)
  have LP: "milestones (trace ?L) = milestones (trace ?P) @ [Status ?c Cancelled]"
    unfolding L by (simp add: trace_set_status milestones_append)
  have a: "milestones (trace ?R) = milestones (trace ?P) @ [Status ?c Cancelled]"
    using RL LP by simp
  obtain ms where ms: "milestones (trace ?P) = ms" and shP: "run_shape 1 (take n fls) ms"
    using worker_loop_shape [of w ?sn out_dir "length fls" 1 "take n fls" ?st0]
    by (auto simp: start_state_def)
  obtain msF where msF: "milestones (trace ?L) = msF" and shF: "run_shape 1 fls msF"
    using worker_loop_shape [of w ?sn out_dir "length fls" 1 fls ?st0]
    by (auto simp: start_state_def)
  have F: "msF = ms @ [Status ?c Cancelled]"
    using LP ms msF by simp
  have RF: "milestones (trace ?R) = msF"
    using RL msF by simp
  have RP: "milestones (trace ?R) = ms @ [Status ?c Cancelled]"
    using RF F by simp
  have sc: "status_changes (trace ?R) p = statuses_of ms p @ (if p = ?c then [Cancelled] else [])"
    for p
    by (simp add: status_changes_milestones RP statuses_of_append)
  have absent: "statuses_of ms (fls ! j) = []" if "n \<le> j" "j < length fls" for j
  proof -
    have "fls ! j \<notin> set (take n fls)"
      using assms(1) that by (rule distinct_nth_notin_take)
    with shP show ?thesis by (rule run_shape_absent)
  qed
  have b: "status_changes (trace ?R) ?c = [Cancelled]"
    using absent [of n] assms(4) by (simp add: sc)
  have c: "p = ?c" if "Cancelled \<in> set (status_changes (trace ?R) p)" for p
  proof -
    from that have "Cancelled \<in> set (statuses_of msF p)"
      by (simp add: status_changes_milestones RF)
    then have "Status p Cancelled \<in> set msF"
      by (rule statuses_of_member)
    with shF have "last msF = Status p Cancelled"
      using run_shape_cancelled_last by blast
    with F show ?thesis by simp
  qed
  have d: "status_changes (trace ?R) (fls ! j) = [] \<and> tree ?R ! j = rs ! j"
    if j: "n < j" "j < length fls" for j
  proof -
    have ne: "fls ! j \<noteq> ?c"
      using assms(1,4) j by (simp add: nth_eq_iff_index_eq)
    have s: "status_changes (trace ?R) (fls ! j) = []"
      using absent [of j] j ne by (simp add: sc)
    have len: "length rs = length fls"
      using assms(2) by (metis length_map)
    have rp: "row_path (rs ! j) = fls ! j"
      using assms(2) j len by (metis nth_map)
    have notin: "fls ! j \<notin> set (take n fls)"
      using assms(1) j by (intro distinct_nth_notin_take) simp_all
    have rowsP: "map row_path (tree ?P) = map row_path (tree ?st0)
                 \<and> (j < length (tree ?st0) \<longrightarrow> row_path (tree ?st0 ! j) \<notin> set (take n fls) \<longrightarrow>
                      tree ?P ! j = tree ?st0 ! j)"
      by (rule worker_loop_rows)
    have t0: "tree ?st0 = rs"
      by (simp add: start_state_def)
    from rowsP t0 have mp: "map row_path (tree ?P) = fls"
      using assms(2) by simp
    then have lenP: "length (tree ?P) = length fls"
      by (metis length_map)
    from rowsP t0 j len rp notin have Pj: "tree ?P ! j = rs ! j"
      by simp
    have "tree ?R = tree ?L"
      using assms(3) by (simp add: tree_worker_run st0)
    also have "\<dots> = set_status_rows ?c Cancelled TagErr NoMark NoMark (tree ?P)"
      unfolding L by (simp add: tree_set_status)
    finally have "tree ?R = set_status_rows ?c Cancelled TagErr NoMark NoMark (tree ?P)" .
    moreover have "set_status_rows ?c Cancelled TagErr NoMark NoMark (tree ?P) ! j = tree ?P ! j"
      using j lenP Pj rp ne by (intro set_status_rows_other) simp_all
    ultimately show ?thesis
      using s Pj by simp
  qed
  have row: "status (tree ?R ! n) = Cancelled"
    using row_status_of_run [OF assms(1,2,4), of w out_dir disk] b by simp
  from a b row c d show ?thesis by blast
qed

theorem cancellation_at_item_boundary_witness:
  "distinct (files three_queued)
   \<and> map row_path (rows three_queued) = files three_queued
   \<and> import_decoder cancel_during_first = None
   \<and> 1 < length (files three_queued)
   \<and> \<not> stop_flag cancel_during_first (AtItem (Suc 0))
   \<and> stop_flag cancel_during_first (AtItem (Suc 1))
   \<and> status_changes
         (trace (worker_run cancel_during_first (Path ''/'' [''out'']) (files three_queued)
                   (start_state (rows three_queued) {Path ''/'' [''out'']})))
         (files three_queued ! 1)
       = [Cancelled]
   \<and> status (tree (worker_run cancel_during_first (Path ''/'' [''out'']) (files three_queued)
                      (start_state (rows three_queued) {Path ''/'' [''out'']})) ! 1)
       = Cancelled
   \<and> tree (worker_run cancel_during_first (Path ''/'' [''out'']) (files three_queued)
              (start_state (rows three_queued) {Path ''/'' [''out'']})) ! 2
       = rows three_queued ! 2
   \<and> status (rows three_queued ! 2) = Queued"
proof -
  have h1: "distinct (files three_queued)"
    by (simp add: three_queued_def)
  have h2: "map row_path (rows three_queued) = files three_queued"
    by (simp add: three_queued_def tree_insert_def)
  have h3: "import_decoder cancel_during_first = None"
    by (simp add: cancel_during_first_def quiet_world_def)
  have h4: "1 < length (files three_queued)"
    by (simp add: three_queued_def)
  have h5: "\<forall>j < 1. \<not> stop_flag cancel_during_first (AtItem (Suc j))"
    by (simp add: cancel_during_first_def quiet_world_def)
  have h6: "stop_flag cancel_during_first (AtItem (Suc 1))"
    by (simp add: cancel_during_first_def quiet_world_def)
  have j: "1 < (2::nat) \<and> 2 < length (files three_queued)"
    by (simp add: three_queued_def)
  have q: "status (rows three_queued ! 2) = Queued"
    by (simp add: three_queued_def tree_insert_def)
  have h5': "\<not> stop_flag cancel_during_first (AtItem (Suc 0))"
    by (simp add: cancel_during_first_def quiet_world_def)
  show ?thesis
    using h1 h2 h3 h4 h5' h6 j q
      cancellation_at_item_boundary [OF h1 h2 h3 h4 h5 h6, of "Path ''/'' [''out'']"
        "{Path ''/'' [''out'']}"]
    by blast
qed

subsection \<open>Skipping\<close>

text \<open>
  C1, as the code has it. When skip-existing is on at the moment an item is reached,
  the item is set to Running and then to Skipped exactly when at least one of its
  planned output paths is on disk. In that case the whole effect of the iteration is two
  status calls, one log line and one progress value: the disk, the list \<^verbatim>\<open>produced\<close> and
  the archive are as before, and the decoder is not used. When none of the planned paths
  is on disk the iteration is the one that runs with skip-existing off: the item goes
  through the decoder block and ends Done or Error as that block returns or raises, with
  the files that block wrote. In both cases the row of the item shows the final status.
\<close>

theorem skip_when_some_output_exists:
  assumes "skip_existing (ui w (AtItem idx))"
  shows "status_changes (trace (process_item w sn out_dir total' idx in_file st)) in_file =
           status_changes (trace st) in_file @
             [Running,
              if on_disk (fs st) (parq_path sn out_dir in_file)
                 \<or> on_disk (fs st) (csv_path sn out_dir in_file)
              then Skipped
              else (case fst (with_decoder w sn total' idx in_file
                               (parq_path sn out_dir in_file) (csv_path sn out_dir in_file)
                               (set_status in_file Running TagRun NoMark NoMark st)) of
                      None \<Rightarrow> Done | Some e \<Rightarrow> Error)]
       \<and> produced (process_item w sn out_dir total' idx in_file st) =
           (if on_disk (fs st) (parq_path sn out_dir in_file)
               \<or> on_disk (fs st) (csv_path sn out_dir in_file)
            then produced st
            else produced (snd (with_decoder w sn total' idx in_file
                               (parq_path sn out_dir in_file) (csv_path sn out_dir in_file)
                               (set_status in_file Running TagRun NoMark NoMark st))))
       \<and> (on_disk (fs st) (parq_path sn out_dir in_file)
            \<or> on_disk (fs st) (csv_path sn out_dir in_file) \<longrightarrow>
           process_item w sn out_dir total' idx in_file st =
             st\<lparr>tree :=
                  set_status_rows in_file Skipped TagWait
                    (if on_disk (fs st) (parq_path sn out_dir in_file)
                     then CheckExisting else NoMark)
                    (if on_disk (fs st) (csv_path sn out_dir in_file)
                     then CheckExisting else NoMark)
                    (set_status_rows in_file Running TagRun NoMark NoMark (tree st)),
                trace :=
                  trace st
                  @ [SetStatus in_file Running TagRun NoMark NoMark,
                     SetStatus in_file Skipped TagWait
                       (if on_disk (fs st) (parq_path sn out_dir in_file)
                        then CheckExisting else NoMark)
                       (if on_disk (fs st) (csv_path sn out_dir in_file)
                        then CheckExisting else NoMark),
                     LogSkipped idx total' (path_name in_file), SetProgress idx]\<rparr>)
       \<and> (\<not> (on_disk (fs st) (parq_path sn out_dir in_file)
               \<or> on_disk (fs st) (csv_path sn out_dir in_file)) \<longrightarrow>
           process_item w sn out_dir total' idx in_file st =
             process_item (w\<lparr>ui := (\<lambda>m. (ui w m)\<lparr>skip_existing := False\<rparr>)\<rparr>)
               sn out_dir total' idx in_file st
           \<and> fs (process_item w sn out_dir total' idx in_file st) =
               fs (snd (with_decoder w sn total' idx in_file
                          (parq_path sn out_dir in_file) (csv_path sn out_dir in_file)
                          (set_status in_file Running TagRun NoMark NoMark st))))
       \<and> (distinct (map row_path (tree st)) \<and> j < length (tree st)
            \<and> row_path (tree st ! j) = in_file \<longrightarrow>
           status (tree (process_item w sn out_dir total' idx in_file st) ! j) =
             (if on_disk (fs st) (parq_path sn out_dir in_file)
                 \<or> on_disk (fs st) (csv_path sn out_dir in_file)
              then Skipped
              else (case fst (with_decoder w sn total' idx in_file
                               (parq_path sn out_dir in_file) (csv_path sn out_dir in_file)
                               (set_status in_file Running TagRun NoMark NoMark st)) of
                      None \<Rightarrow> Done | Some e \<Rightarrow> Error)))"
proof -
  let ?st1 = "set_status in_file Running TagRun NoMark NoMark st"
  let ?pp = "parq_path sn out_dir in_file"
  let ?cp = "csv_path sn out_dir in_file"
  let ?I = "process_item w sn out_dir total' idx in_file st"
  let ?ex = "on_disk (fs st) ?pp \<or> on_disk (fs st) ?cp"
  let ?verdict = "if ?ex then Skipped
                  else (case fst (with_decoder w sn total' idx in_file ?pp ?cp ?st1) of
                          None \<Rightarrow> Done | Some e \<Rightarrow> Error)"
  let ?w' = "w\<lparr>ui := (\<lambda>m. (ui w m)\<lparr>skip_existing := False\<rparr>)\<rparr>"
  obtain r st2 where d: "with_decoder w sn total' idx in_file ?pp ?cp ?st1 = (r, st2)"
    by (cases "with_decoder w sn total' idx in_file ?pp ?cp ?st1")
  have t: "status_changes (trace st2) in_file = status_changes (trace ?st1) in_file"
    using trace_with_decoder [of w sn total' idx in_file ?pp ?cp ?st1] d
    by (simp add: status_changes_append)
  have ABD: "status_changes (trace ?I) in_file =
               status_changes (trace st) in_file @ [Running, ?verdict]
             \<and> produced ?I =
                 (if ?ex then produced st
                  else produced (snd (with_decoder w sn total' idx in_file ?pp ?cp ?st1)))
             \<and> (\<not> ?ex \<longrightarrow>
                 ?I = process_item ?w' sn out_dir total' idx in_file st
                 \<and> fs ?I = fs (snd (with_decoder w sn total' idx in_file ?pp ?cp ?st1)))"
  proof (cases ?ex)
    case True
    note skip = process_item_skip [OF assms True]
    have "status_changes (trace ?I) in_file = status_changes (trace st) in_file @ [Running, ?verdict]"
      using True
      by (simp add: skip trace_emit trace_set_status status_changes_append)
    moreover have "produced ?I = produced st"
      by (simp add: skip produced_emit produced_set_status)
    ultimately show ?thesis
      using True by simp
  next
    case False
    then have ns: "\<not> (skip_existing (ui w (AtItem idx)) \<and> ?ex)"
      by simp
    note conv = process_item_convert [OF ns d]
    have ns': "\<not> (skip_existing (ui ?w' (AtItem idx)) \<and> ?ex)"
      by simp
    have d': "with_decoder ?w' sn total' idx in_file ?pp ?cp ?st1 = (r, st2)"
      using d by (simp add: with_decoder_ui)
    note conv' = process_item_convert [OF ns' d']
    have "status_changes (trace ?I) in_file = status_changes (trace st) in_file @ [Running, ?verdict]"
      using False d t
      by (cases r)
         (simp_all add: conv trace_emit trace_set_status status_changes_append)
    moreover have "produced ?I = produced (snd (with_decoder w sn total' idx in_file ?pp ?cp ?st1))"
      using d by (cases r) (simp_all add: conv produced_emit produced_set_status)
    moreover have "?I = process_item ?w' sn out_dir total' idx in_file st"
      by (simp only: conv conv')
    moreover have "fs ?I = fs (snd (with_decoder w sn total' idx in_file ?pp ?cp ?st1))"
      using d by (cases r) (simp_all add: conv fs_emit fs_set_status)
    ultimately show ?thesis
      using False by simp
  qed
  note A = ABD [THEN conjunct1]
  note B = ABD [THEN conjunct2, THEN conjunct1]
  note D = ABD [THEN conjunct2, THEN conjunct2]
  have C: "?ex \<longrightarrow>
           ?I = st\<lparr>tree :=
                  set_status_rows in_file Skipped TagWait
                    (if on_disk (fs st) ?pp then CheckExisting else NoMark)
                    (if on_disk (fs st) ?cp then CheckExisting else NoMark)
                    (set_status_rows in_file Running TagRun NoMark NoMark (tree st)),
                trace :=
                  trace st
                  @ [SetStatus in_file Running TagRun NoMark NoMark,
                     SetStatus in_file Skipped TagWait
                       (if on_disk (fs st) ?pp then CheckExisting else NoMark)
                       (if on_disk (fs st) ?cp then CheckExisting else NoMark),
                     LogSkipped idx total' (path_name in_file), SetProgress idx]\<rparr>"
  proof
    assume ex: ?ex
    show "?I = st\<lparr>tree :=
                  set_status_rows in_file Skipped TagWait
                    (if on_disk (fs st) ?pp then CheckExisting else NoMark)
                    (if on_disk (fs st) ?cp then CheckExisting else NoMark)
                    (set_status_rows in_file Running TagRun NoMark NoMark (tree st)),
                trace :=
                  trace st
                  @ [SetStatus in_file Running TagRun NoMark NoMark,
                     SetStatus in_file Skipped TagWait
                       (if on_disk (fs st) ?pp then CheckExisting else NoMark)
                       (if on_disk (fs st) ?cp then CheckExisting else NoMark),
                     LogSkipped idx total' (path_name in_file), SetProgress idx]\<rparr>"
      unfolding process_item_skip [OF assms ex] by (simp add: set_status_def emit_def)
  qed
  have E: "status (tree ?I ! j) = ?verdict"
    if rows: "distinct (map row_path (tree st)) \<and> j < length (tree st)
              \<and> row_path (tree st ! j) = in_file"
  proof -
    obtain evs where evs: "trace ?I = trace st @ evs" "tree ?I = replay evs (tree st)"
      using view_process_item by blast
    from A evs(1) have sc: "status_changes evs in_file = [Running, ?verdict]"
      by (simp add: status_changes_append)
    from rows have "status (replay evs (tree st) ! j) =
        (if status_changes evs (row_path (tree st ! j)) = [] then status (tree st ! j)
         else last (status_changes evs (row_path (tree st ! j))))"
      by (intro status_replay) simp_all
    with rows sc evs(2) show ?thesis by simp
  qed
  from A B C D E show ?thesis by blast
qed

theorem skip_when_some_output_exists_witness:
  "skip_existing (ui quiet_world (AtItem 2))
   \<and> status_changes
         (trace (process_item quiet_world (take_snapshot quiet_world) (Path ''/'' [''out'']) 3 2
                   (Path ''/'' [''in'', ''b.bin''])
                   (start_state (rows three_queued)
                      {Path ''/'' [''out''], Path ''/'' [''out'', ''b.csv'']})))
         (Path ''/'' [''in'', ''b.bin''])
       = [Running, Skipped]
   \<and> status (tree (process_item quiet_world (take_snapshot quiet_world) (Path ''/'' [''out'']) 3 2
                      (Path ''/'' [''in'', ''b.bin''])
                      (start_state (rows three_queued)
                         {Path ''/'' [''out''], Path ''/'' [''out'', ''b.csv'']})) ! 1)
       = Skipped
   \<and> fs (process_item quiet_world (take_snapshot quiet_world) (Path ''/'' [''out'']) 3 2
             (Path ''/'' [''in'', ''b.bin''])
             (start_state (rows three_queued)
                {Path ''/'' [''out''], Path ''/'' [''out'', ''b.csv'']}))
       = {Path ''/'' [''out''], Path ''/'' [''out'', ''b.csv'']}
   \<and> produced (process_item quiet_world (take_snapshot quiet_world) (Path ''/'' [''out'']) 3 2
                   (Path ''/'' [''in'', ''b.bin''])
                   (start_state (rows three_queued)
                      {Path ''/'' [''out''], Path ''/'' [''out'', ''b.csv'']}))
       = []
   \<and> status_changes
         (trace (process_item quiet_world (take_snapshot quiet_world) (Path ''/'' [''out'']) 3 2
                   (Path ''/'' [''in'', ''b.bin''])
                   (start_state (rows three_queued) {Path ''/'' [''out'']})))
         (Path ''/'' [''in'', ''b.bin''])
       = [Running, Done]
   \<and> status (tree (process_item quiet_world (take_snapshot quiet_world) (Path ''/'' [''out'']) 3 2
                      (Path ''/'' [''in'', ''b.bin''])
                      (start_state (rows three_queued) {Path ''/'' [''out'']})) ! 1)
       = Done
   \<and> produced (process_item quiet_world (take_snapshot quiet_world) (Path ''/'' [''out'']) 3 2
                   (Path ''/'' [''in'', ''b.bin''])
                   (start_state (rows three_queued) {Path ''/'' [''out'']}))
       = [Path ''/'' [''out'', ''b.parquet''], Path ''/'' [''out'', ''b.csv'']]"
proof -
  let ?sn = "take_snapshot quiet_world"
  let ?out = "Path ''/'' [''out'']"
  let ?b = "Path ''/'' [''in'', ''b.bin'']"
  let ?sa = "start_state (rows three_queued) {Path ''/'' [''out''], Path ''/'' [''out'', ''b.csv'']}"
  let ?sb = "start_state (rows three_queued) {Path ''/'' [''out'']}"
  have h: "skip_existing (ui quiet_world (AtItem 2))"
    by (simp add: quiet_world_def default_config_def)
  have exA: "on_disk (fs ?sa) (parq_path ?sn ?out ?b) \<or> on_disk (fs ?sa) (csv_path ?sn ?out ?b)"
    by code_simp
  have exB: "\<not> (on_disk (fs ?sb) (parq_path ?sn ?out ?b) \<or> on_disk (fs ?sb) (csv_path ?sn ?out ?b))"
    by code_simp
  have rowsA: "distinct (map row_path (tree ?sa)) \<and> 1 < length (tree ?sa)
               \<and> row_path (tree ?sa ! 1) = ?b"
    by code_simp
  have rowsB: "distinct (map row_path (tree ?sb)) \<and> 1 < length (tree ?sb)
               \<and> row_path (tree ?sb ! 1) = ?b"
    by code_simp
  have decB: "fst (with_decoder quiet_world ?sn 3 2 ?b (parq_path ?sn ?out ?b)
                     (csv_path ?sn ?out ?b) (set_status ?b Running TagRun NoMark NoMark ?sb)) = None"
    by code_simp
  have prodB: "produced (snd (with_decoder quiet_world ?sn 3 2 ?b (parq_path ?sn ?out ?b)
                     (csv_path ?sn ?out ?b) (set_status ?b Running TagRun NoMark NoMark ?sb)))
               = [Path ''/'' [''out'', ''b.parquet''], Path ''/'' [''out'', ''b.csv'']]"
    by code_simp
  have sc: "status_changes (trace ?sa) ?b = []" "status_changes (trace ?sb) ?b = []"
    by (simp_all add: start_state_def)
  have st: "produced ?sa = []" "fs ?sa = {Path ''/'' [''out''], Path ''/'' [''out'', ''b.csv'']}"
    by (simp_all add: start_state_def)
  note TA = skip_when_some_output_exists [OF h, of ?sn ?out 3 ?b ?sa 1]
  note TB = skip_when_some_output_exists [OF h, of ?sn ?out 3 ?b ?sb 1]
  have a1: "status_changes (trace (process_item quiet_world ?sn ?out 3 2 ?b ?sa)) ?b = [Running, Skipped]"
    using TA [THEN conjunct1] by (simp only: if_P [OF exA] sc append_Nil)
  have "status (tree (process_item quiet_world ?sn ?out 3 2 ?b ?sa) ! 1) =
          (if on_disk (fs ?sa) (parq_path ?sn ?out ?b) \<or> on_disk (fs ?sa) (csv_path ?sn ?out ?b)
           then Skipped
           else (case fst (with_decoder quiet_world ?sn 3 2 ?b (parq_path ?sn ?out ?b)
                             (csv_path ?sn ?out ?b)
                             (set_status ?b Running TagRun NoMark NoMark ?sa)) of
                   None \<Rightarrow> Done | Some e \<Rightarrow> Error))"
    using TA rowsA by blast
  then have a2: "status (tree (process_item quiet_world ?sn ?out 3 2 ?b ?sa) ! 1) = Skipped"
    by (simp only: if_P [OF exA])
  have a3: "process_item quiet_world ?sn ?out 3 2 ?b ?sa =
             ?sa\<lparr>tree :=
                  set_status_rows ?b Skipped TagWait
                    (if on_disk (fs ?sa) (parq_path ?sn ?out ?b) then CheckExisting else NoMark)
                    (if on_disk (fs ?sa) (csv_path ?sn ?out ?b) then CheckExisting else NoMark)
                    (set_status_rows ?b Running TagRun NoMark NoMark (tree ?sa)),
                trace :=
                  trace ?sa
                  @ [SetStatus ?b Running TagRun NoMark NoMark,
                     SetStatus ?b Skipped TagWait
                       (if on_disk (fs ?sa) (parq_path ?sn ?out ?b) then CheckExisting else NoMark)
                       (if on_disk (fs ?sa) (csv_path ?sn ?out ?b) then CheckExisting else NoMark),
                     LogSkipped 2 3 (path_name ?b), SetProgress 2]\<rparr>"
    using TA exA by blast
  have a4: "fs (process_item quiet_world ?sn ?out 3 2 ?b ?sa)
            = {Path ''/'' [''out''], Path ''/'' [''out'', ''b.csv'']}"
    by (simp add: a3 st)
  have a5: "produced (process_item quiet_world ?sn ?out 3 2 ?b ?sa) = []"
    by (simp add: a3 st)
  have b1: "status_changes (trace (process_item quiet_world ?sn ?out 3 2 ?b ?sb)) ?b = [Running, Done]"
    using TB [THEN conjunct1]
    by (simp only: if_not_P [OF exB] decB option.case sc append_Nil)
  have "status (tree (process_item quiet_world ?sn ?out 3 2 ?b ?sb) ! 1) =
          (if on_disk (fs ?sb) (parq_path ?sn ?out ?b) \<or> on_disk (fs ?sb) (csv_path ?sn ?out ?b)
           then Skipped
           else (case fst (with_decoder quiet_world ?sn 3 2 ?b (parq_path ?sn ?out ?b)
                             (csv_path ?sn ?out ?b)
                             (set_status ?b Running TagRun NoMark NoMark ?sb)) of
                   None \<Rightarrow> Done | Some e \<Rightarrow> Error))"
    using TB rowsB by blast
  then have b2: "status (tree (process_item quiet_world ?sn ?out 3 2 ?b ?sb) ! 1) = Done"
    by (simp only: if_not_P [OF exB] decB option.case)
  have b3: "produced (process_item quiet_world ?sn ?out 3 2 ?b ?sb)
            = [Path ''/'' [''out'', ''b.parquet''], Path ''/'' [''out'', ''b.csv'']]"
    using TB [THEN conjunct2, THEN conjunct1]
    by (simp only: if_not_P [OF exB] prodB)
  from h a1 a2 a4 a5 b1 b2 b3 show ?thesis by blast
qed

text \<open>
  C1, as the specification states it, fails: with both formats on, the Parquet output
  on disk and the CSV output missing, the item is skipped although one planned path
  does not exist, and its row shows Skipped.
\<close>

theorem skipped_with_csv_missing_counterexample:
  "skip_existing (ui quiet_world (AtItem 1))
   \<and> parq_path (take_snapshot quiet_world) (Path ''/'' [''out'']) (Path ''/'' [''in'', ''a.udf''])
       = Some (Path ''/'' [''out'', ''a.parquet''])
   \<and> csv_path (take_snapshot quiet_world) (Path ''/'' [''out'']) (Path ''/'' [''in'', ''a.udf''])
       = Some (Path ''/'' [''out'', ''a.csv''])
   \<and> Path ''/'' [''out'', ''a.csv''] \<notin> {Path ''/'' [''out''], Path ''/'' [''out'', ''a.parquet'']}
   \<and> status_changes
         (trace (process_item quiet_world (take_snapshot quiet_world) (Path ''/'' [''out'']) 1 1
                   (Path ''/'' [''in'', ''a.udf''])
                   (start_state (rows one_queued)
                      {Path ''/'' [''out''], Path ''/'' [''out'', ''a.parquet'']})))
         (Path ''/'' [''in'', ''a.udf''])
       = [Running, Skipped]
   \<and> map status
         (tree (process_item quiet_world (take_snapshot quiet_world) (Path ''/'' [''out'']) 1 1
                  (Path ''/'' [''in'', ''a.udf''])
                  (start_state (rows one_queued)
                     {Path ''/'' [''out''], Path ''/'' [''out'', ''a.parquet'']})))
       = [Skipped]
   \<and> produced (process_item quiet_world (take_snapshot quiet_world) (Path ''/'' [''out'']) 1 1
                   (Path ''/'' [''in'', ''a.udf''])
                   (start_state (rows one_queued)
                      {Path ''/'' [''out''], Path ''/'' [''out'', ''a.parquet'']}))
       = []"
  by code_simp

subsection \<open>Failure of one item, in a whole run\<close>

lemma with_decoder_raises:
  assumes "open_decoder w idx = Some e
           \<or> open_decoder w idx = None
              \<and> read_bin_file w idx in_file (apply_scaling sn) = Some e
           \<or> open_decoder w idx = None
              \<and> read_bin_file w idx in_file (apply_scaling sn) = None
              \<and> (\<exists>m. user_msg sn = Some m \<and> add_user_meta_data w idx m = Some e)
           \<or> open_decoder w idx = None
              \<and> read_bin_file w idx in_file (apply_scaling sn) = None
              \<and> (case user_msg sn of None \<Rightarrow> None | Some m \<Rightarrow> add_user_meta_data w idx m) = None
              \<and> (\<exists>p. pp = Some p \<and> write_table w idx p = Some e)
           \<or> open_decoder w idx = None
              \<and> read_bin_file w idx in_file (apply_scaling sn) = None
              \<and> (case user_msg sn of None \<Rightarrow> None | Some m \<Rightarrow> add_user_meta_data w idx m) = None
              \<and> (case pp of None \<Rightarrow> None | Some p \<Rightarrow> write_table w idx p) = None
              \<and> (\<exists>p. cp = Some p \<and> to_csv w idx p = Some e)"
  shows "fst (with_decoder w sn total' idx in_file pp cp st) = Some e"
  using assms
proof (elim disjE conjE exE)
  assume "open_decoder w idx = Some e"
  then show ?thesis by (simp add: with_decoder_def Let_def)
next
  assume "open_decoder w idx = None" "read_bin_file w idx in_file (apply_scaling sn) = Some e"
  then show ?thesis by (simp add: with_decoder_def Let_def)
next
  fix m
  assume "open_decoder w idx = None" "read_bin_file w idx in_file (apply_scaling sn) = None"
    "user_msg sn = Some m" "add_user_meta_data w idx m = Some e"
  then show ?thesis by (simp add: with_decoder_def Let_def)
next
  fix p
  assume "open_decoder w idx = None" "read_bin_file w idx in_file (apply_scaling sn) = None"
    "(case user_msg sn of None \<Rightarrow> None | Some m \<Rightarrow> add_user_meta_data w idx m) = None"
    "pp = Some p" "write_table w idx p = Some e"
  then show ?thesis by (simp add: with_decoder_def write_parquet_step_def Let_def)
next
  fix p
  assume "open_decoder w idx = None" "read_bin_file w idx in_file (apply_scaling sn) = None"
    "(case user_msg sn of None \<Rightarrow> None | Some m \<Rightarrow> add_user_meta_data w idx m) = None"
    and pq: "(case pp of None \<Rightarrow> None | Some p \<Rightarrow> write_table w idx p) = None"
    and "cp = Some p" "to_csv w idx p = Some e"
  then show ?thesis
    by (cases pp) (simp_all add: with_decoder_def write_parquet_step_def write_csv_step_def Let_def)
qed

text \<open>
  C7. Take a run over a queue without duplicates whose view has one row per queued file,
  in order. Let item \<open>i + 1\<close> be reached and not skipped, and let one of the calls of the
  decoder block raise an exception with message \<open>e\<close> after the calls before it have
  returned: opening the decoder, reading the file, attaching the user message, writing
  the Parquet file or writing the CSV file. Then the item is set to Running and to Error
  and nothing else, its row shows Error when the run has ended, and the log has the
  message and the traceback, followed by the progress value of the item. If there is a
  next item, the next thing the loop does is start on it: it is set to Running and ends
  Done, Skipped or Error, or it is set to Cancelled when the stop flag has been set in
  the meantime. The fatal-error box does not come from the item: it appears only when the
  archive cannot be opened.
\<close>

theorem item_failure_is_isolated:
  assumes "distinct fls"
      and "map row_path rs = fls"
      and "import_decoder w = None"
      and "i < length fls"
      and "\<forall>j \<le> i. \<not> stop_flag w (AtItem (Suc j))"
      and "\<not> (skip_existing (ui w (AtItem (Suc i)))
              \<and> (on_disk (fs (worker_loop w (take_snapshot w) out_dir (length fls) 1 (take i fls)
                                 (start_state rs disk)))
                     (parq_path (take_snapshot w) out_dir (fls ! i))
                   \<or> on_disk (fs (worker_loop w (take_snapshot w) out_dir (length fls) 1
                                       (take i fls) (start_state rs disk)))
                        (csv_path (take_snapshot w) out_dir (fls ! i))))"
      and "open_decoder w (Suc i) = Some e
           \<or> open_decoder w (Suc i) = None
              \<and> read_bin_file w (Suc i) (fls ! i) (apply_scaling (take_snapshot w)) = Some e
           \<or> open_decoder w (Suc i) = None
              \<and> read_bin_file w (Suc i) (fls ! i) (apply_scaling (take_snapshot w)) = None
              \<and> (\<exists>m. user_msg (take_snapshot w) = Some m
                       \<and> add_user_meta_data w (Suc i) m = Some e)
           \<or> open_decoder w (Suc i) = None
              \<and> read_bin_file w (Suc i) (fls ! i) (apply_scaling (take_snapshot w)) = None
              \<and> (case user_msg (take_snapshot w) of
                     None \<Rightarrow> None | Some m \<Rightarrow> add_user_meta_data w (Suc i) m) = None
              \<and> (\<exists>p. parq_path (take_snapshot w) out_dir (fls ! i) = Some p
                       \<and> write_table w (Suc i) p = Some e)
           \<or> open_decoder w (Suc i) = None
              \<and> read_bin_file w (Suc i) (fls ! i) (apply_scaling (take_snapshot w)) = None
              \<and> (case user_msg (take_snapshot w) of
                     None \<Rightarrow> None | Some m \<Rightarrow> add_user_meta_data w (Suc i) m) = None
              \<and> (case parq_path (take_snapshot w) out_dir (fls ! i) of
                     None \<Rightarrow> None | Some p \<Rightarrow> write_table w (Suc i) p) = None
              \<and> (\<exists>p. csv_path (take_snapshot w) out_dir (fls ! i) = Some p
                       \<and> to_csv w (Suc i) p = Some e)"
  shows "status_changes (trace (worker_run w out_dir fls (start_state rs disk))) (fls ! i)
           = [Running, Error]
       \<and> status (tree (worker_run w out_dir fls (start_state rs disk)) ! i) = Error
       \<and> (\<exists>pre post.
             trace (worker_run w out_dir fls (start_state rs disk)) =
               pre @ [SetStatus (fls ! i) Error TagErr NoMark NoMark,
                      LogError (path_name (fls ! i)) e, LogTraceback, SetProgress (Suc i)]
               @ post
             \<and> (Suc i < length fls \<longrightarrow>
                  (\<exists>more. post =
                     SetStatus (fls ! Suc i)
                       (if stop_flag w (AtItem (Suc (Suc i))) then Cancelled else Running)
                       (if stop_flag w (AtItem (Suc (Suc i))) then TagErr else TagRun)
                       NoMark NoMark # more)))
       \<and> (Suc i < length fls \<longrightarrow>
            (if stop_flag w (AtItem (Suc (Suc i)))
             then status_changes (trace (worker_run w out_dir fls (start_state rs disk)))
                    (fls ! Suc i) = [Cancelled]
                  \<and> status (tree (worker_run w out_dir fls (start_state rs disk)) ! Suc i)
                      = Cancelled
             else \<exists>s \<in> {Done, Skipped, Error}.
                    status_changes (trace (worker_run w out_dir fls (start_state rs disk)))
                      (fls ! Suc i) = [Running, s]
                    \<and> status (tree (worker_run w out_dir fls (start_state rs disk)) ! Suc i)
                        = s))
       \<and> (\<forall>m. FatalErrorBox m \<in> set (trace (worker_run w out_dir fls (start_state rs disk))) \<longrightarrow>
              zip_open w (joinpath out_dir (''udf_exports_'' @ ts_now w AtEnd @ ''.zip''))
                = Some m)"
proof -
  let ?st0 = "start_state rs disk"
  let ?sn = "take_snapshot w"
  let ?n = "length fls"
  let ?R = "worker_run w out_dir fls ?st0"
  let ?L = "worker_loop w ?sn out_dir ?n 1 fls ?st0"
  let ?P = "worker_loop w ?sn out_dir ?n 1 (take i fls) ?st0"
  let ?f = "fls ! i"
  let ?I = "process_item w ?sn out_dir ?n (Suc i) ?f ?P"
  let ?four = "[SetStatus ?f Error TagErr NoMark NoMark,
                LogError (path_name ?f) e, LogTraceback, SetProgress (Suc i)]"
  let ?S = "{[], [Cancelled], [Running, Done], [Running, Skipped], [Running, Error]}"
  have st0: "?st0\<lparr>produced := []\<rparr> = ?st0"
    by (simp add: start_state_def)
  have quiet: "\<forall>j \<le> i. \<not> stop_flag w (AtItem (1 + j))"
    using assms(5) by simp
  have "?L = worker_loop w ?sn out_dir ?n (Suc (1 + i)) (drop (Suc i) fls)
               (process_item w ?sn out_dir ?n (1 + i) ?f ?P)"
    using assms(4) quiet by (rule worker_loop_at)
  then have L: "?L = worker_loop w ?sn out_dir ?n (Suc (Suc i)) (drop (Suc i) fls) ?I"
    by simp
  have raised: "fst (with_decoder w ?sn ?n (Suc i) ?f (parq_path ?sn out_dir ?f)
                       (csv_path ?sn out_dir ?f)
                       (set_status ?f Running TagRun NoMark NoMark ?P)) = Some e"
    using assms(7) by (rule with_decoder_raises)
  obtain evs where tI: "trace ?I = trace ?P @ evs @ ?four"
    using process_item_error_trace [OF assms(6) raised] by blast
  obtain evs2 where evs2': "trace (worker_loop w ?sn out_dir ?n (Suc (Suc i)) (drop (Suc i) fls) ?I)
                              = trace ?I @ evs2"
    using worker_loop_trace by blast
  have evs2: "trace ?L = trace ?I @ evs2"
    unfolding L by (rule evs2')
  have next_head: "\<exists>more. evs2 =
                     SetStatus (fls ! Suc i)
                       (if stop_flag w (AtItem (Suc (Suc i))) then Cancelled else Running)
                       (if stop_flag w (AtItem (Suc (Suc i))) then TagErr else TagRun)
                       NoMark NoMark # more"
    if nx: "Suc i < length fls"
  proof -
    have "drop (Suc i) fls = fls ! Suc i # drop (Suc (Suc i)) fls"
      using nx by (simp add: Cons_nth_drop_Suc)
    then obtain more where h:
      "trace (worker_loop w ?sn out_dir ?n (Suc (Suc i)) (drop (Suc i) fls) ?I) =
         trace ?I @ SetStatus (fls ! Suc i)
                       (if stop_flag w (AtItem (Suc (Suc i))) then Cancelled else Running)
                       (if stop_flag w (AtItem (Suc (Suc i))) then TagErr else TagRun)
                       NoMark NoMark # more"
      using worker_loop_trace_head
        [of w ?sn out_dir ?n "Suc (Suc i)" "fls ! Suc i" "drop (Suc (Suc i)) fls" ?I]
      by auto
    have "trace ?I @ evs2 =
          trace ?I @ SetStatus (fls ! Suc i)
                       (if stop_flag w (AtItem (Suc (Suc i))) then Cancelled else Running)
                       (if stop_flag w (AtItem (Suc (Suc i))) then TagErr else TagRun)
                       NoMark NoMark # more"
      by (rule trans [OF sym [OF evs2'] h])
    then have "evs2 = SetStatus (fls ! Suc i)
                       (if stop_flag w (AtItem (Suc (Suc i))) then Cancelled else Running)
                       (if stop_flag w (AtItem (Suc (Suc i))) then TagErr else TagRun)
                       NoMark NoMark # more"
      by (simp only: same_append_eq)
    then show ?thesis by blast
  qed
  have R: "?R = (case bundle_outputs w out_dir ?L of
                   Inl (e, st2) \<Rightarrow> fatal e st2
                 | Inr st2 \<Rightarrow> emit (EndRun (stop_flag w AtEnd)) st2)"
    using assms(3) by (simp add: worker_run_def Let_def st0)
  obtain more where more: "trace ?R = trace ?L @ more"
    unfolding R using finish_trace by blast
  have tR: "trace ?R = (trace ?P @ evs) @ ?four @ (evs2 @ more)"
    using more evs2 tI by simp
  have form: "status_changes (trace ?R) q \<in> ?S" for q
  proof -
    obtain ms where m: "milestones (trace ?R) = milestones (trace ?st0) @ ms"
      and sh: "ms = [] \<or> run_shape 1 fls ms"
      using worker_run_shape by blast
    have "statuses_of ms q \<in> ?S"
      using sh assms(1) run_shape_statuses [of 1 fls ms q] by auto
    moreover have "milestones (trace ?R) = ms"
      using m by (simp add: start_state_def)
    ultimately show ?thesis
      by (simp only: status_changes_milestones)
  qed
  have row: "status (tree ?R ! j) =
               (if status_changes (trace ?R) (fls ! j) = [] then status (rs ! j)
                else last (status_changes (trace ?R) (fls ! j)))"
    if "j < length fls" for j
    using assms(1,2) that by (rule row_status_of_run)
  have "Error \<in> set (status_changes (trace ?R) ?f)"
    unfolding tR by (simp add: status_changes_append)
  with form [of ?f] have a: "status_changes (trace ?R) ?f = [Running, Error]"
    by auto
  have b: "status (tree ?R ! i) = Error"
    using row [OF assms(4)] a by simp
  have c: "\<exists>pre post. trace ?R = pre @ ?four @ post
             \<and> (Suc i < length fls \<longrightarrow>
                  (\<exists>more. post =
                     SetStatus (fls ! Suc i)
                       (if stop_flag w (AtItem (Suc (Suc i))) then Cancelled else Running)
                       (if stop_flag w (AtItem (Suc (Suc i))) then TagErr else TagRun)
                       NoMark NoMark # more))"
  proof (cases "Suc i < length fls")
    case True
    then obtain m2 where "evs2 = SetStatus (fls ! Suc i)
                       (if stop_flag w (AtItem (Suc (Suc i))) then Cancelled else Running)
                       (if stop_flag w (AtItem (Suc (Suc i))) then TagErr else TagRun)
                       NoMark NoMark # m2"
      using next_head by blast
    then have "trace ?R = (trace ?P @ evs) @ ?four
                 @ SetStatus (fls ! Suc i)
                       (if stop_flag w (AtItem (Suc (Suc i))) then Cancelled else Running)
                       (if stop_flag w (AtItem (Suc (Suc i))) then TagErr else TagRun)
                       NoMark NoMark # (m2 @ more)"
      using tR by simp
    then show ?thesis by blast
  next
    case False
    with tR show ?thesis by blast
  qed
  have d: "if stop_flag w (AtItem (Suc (Suc i)))
             then status_changes (trace ?R) (fls ! Suc i) = [Cancelled]
                  \<and> status (tree ?R ! Suc i) = Cancelled
             else \<exists>s \<in> {Done, Skipped, Error}.
                    status_changes (trace ?R) (fls ! Suc i) = [Running, s]
                    \<and> status (tree ?R ! Suc i) = s"
    if nx: "Suc i < length fls"
  proof -
    obtain m2 where m2: "evs2 = SetStatus (fls ! Suc i)
                       (if stop_flag w (AtItem (Suc (Suc i))) then Cancelled else Running)
                       (if stop_flag w (AtItem (Suc (Suc i))) then TagErr else TagRun)
                       NoMark NoMark # m2"
      using next_head [OF nx] by blast
    have mem: "(if stop_flag w (AtItem (Suc (Suc i))) then Cancelled else Running)
               \<in> set (status_changes (trace ?R) (fls ! Suc i))"
      unfolding tR m2 by (simp add: status_changes_append)
    note r = row [OF nx]
    show ?thesis
    proof (cases "stop_flag w (AtItem (Suc (Suc i)))")
      case True
      with mem form [of "fls ! Suc i"]
      have "status_changes (trace ?R) (fls ! Suc i) = [Cancelled]"
        by auto
      with True r show ?thesis by simp
    next
      case False
      with mem form [of "fls ! Suc i"]
      have "status_changes (trace ?R) (fls ! Suc i)
              \<in> {[Running, Done], [Running, Skipped], [Running, Error]}"
        by auto
      with False r show ?thesis by auto
    qed
  qed
  have f: "zip_open w (joinpath out_dir (''udf_exports_'' @ ts_now w AtEnd @ ''.zip'')) = Some m"
    if "FatalErrorBox m \<in> set (trace ?R)" for m
    using worker_run_fatal [OF that] assms(3) by simp
  from a b c d f show ?thesis by blast
qed

theorem item_failure_is_isolated_witness:
  "distinct (files three_queued)
   \<and> map row_path (rows three_queued) = files three_queued
   \<and> import_decoder parquet_fails_first = None
   \<and> 0 < length (files three_queued)
   \<and> \<not> stop_flag parquet_fails_first (AtItem (Suc 0))
   \<and> parq_path (take_snapshot parquet_fails_first) (Path ''/'' [''out'']) (files three_queued ! 0)
       = Some (Path ''/'' [''out'', ''a.parquet''])
   \<and> write_table parquet_fails_first (Suc 0) (Path ''/'' [''out'', ''a.parquet'']) = Some ''disk full''
   \<and> status_changes (trace (worker_run parquet_fails_first (Path ''/'' [''out'']) (files three_queued)
              (start_state (rows three_queued) {Path ''/'' [''out'']}))) (files three_queued ! 0)
       = [Running, Error]
   \<and> status (tree (worker_run parquet_fails_first (Path ''/'' [''out'']) (files three_queued)
              (start_state (rows three_queued) {Path ''/'' [''out'']})) ! 0) = Error
   \<and> (\<exists>s \<in> {Done, Skipped, Error}.
         status_changes (trace (worker_run parquet_fails_first (Path ''/'' [''out'']) (files three_queued)
              (start_state (rows three_queued) {Path ''/'' [''out'']}))) (files three_queued ! Suc 0)
         = [Running, s]
         \<and> status (tree (worker_run parquet_fails_first (Path ''/'' [''out'']) (files three_queued)
              (start_state (rows three_queued) {Path ''/'' [''out'']})) ! Suc 0) = s)
   \<and> read_bin_file broken_first (Suc 0) (files three_queued ! 0) (apply_scaling (take_snapshot broken_first))
       = Some ''bad header''
   \<and> status_changes (trace (worker_run broken_first (Path ''/'' [''out'']) (files three_queued)
              (start_state (rows three_queued) {Path ''/'' [''out'']}))) (files three_queued ! 0)
       = [Running, Error]
   \<and> status (tree (worker_run broken_first (Path ''/'' [''out'']) (files three_queued)
              (start_state (rows three_queued) {Path ''/'' [''out'']})) ! 0) = Error"
proof -
  have h1: "distinct (files three_queued)"
    by (simp add: three_queued_def)
  have h2: "map row_path (rows three_queued) = files three_queued"
    by (simp add: three_queued_def tree_insert_def)
  have h4: "0 < length (files three_queued)"
    by (simp add: three_queued_def)
  have nx: "Suc 0 < length (files three_queued)"
    by (simp add: three_queued_def)
  have h3: "import_decoder parquet_fails_first = None"
    by (simp add: parquet_fails_first_def quiet_world_def)
  have h5: "\<forall>j \<le> 0. \<not> stop_flag parquet_fails_first (AtItem (Suc j))"
    by (simp add: parquet_fails_first_def quiet_world_def)
  have h5': "\<not> stop_flag parquet_fails_first (AtItem (Suc 0))"
    by (simp add: parquet_fails_first_def quiet_world_def)
  have ns: "\<not> stop_flag parquet_fails_first (AtItem (Suc (Suc 0)))"
    by (simp add: parquet_fails_first_def quiet_world_def)
  have h6: "\<not> (skip_existing (ui parquet_fails_first (AtItem (Suc 0)))
          \<and> (on_disk (fs (worker_loop parquet_fails_first (take_snapshot parquet_fails_first)
                              (Path ''/'' [''out'']) (length (files three_queued)) 1
                              (take 0 (files three_queued))
                              (start_state (rows three_queued) {Path ''/'' [''out'']})))
                 (parq_path (take_snapshot parquet_fails_first) (Path ''/'' [''out''])
                    (files three_queued ! 0))
               \<or> on_disk (fs (worker_loop parquet_fails_first (take_snapshot parquet_fails_first)
                                   (Path ''/'' [''out'']) (length (files three_queued)) 1
                                   (take 0 (files three_queued))
                                   (start_state (rows three_queued) {Path ''/'' [''out'']})))
                    (csv_path (take_snapshot parquet_fails_first) (Path ''/'' [''out''])
                       (files three_queued ! 0))))"
    by code_simp
  have o: "open_decoder parquet_fails_first (Suc 0) = None"
    "read_bin_file parquet_fails_first (Suc 0) (files three_queued ! 0) (apply_scaling (take_snapshot parquet_fails_first)) = None"
    by (simp_all add: parquet_fails_first_def quiet_world_def)
  have m: "(case user_msg (take_snapshot parquet_fails_first) of
              None \<Rightarrow> None | Some m \<Rightarrow> add_user_meta_data parquet_fails_first (Suc 0) m) = None"
    by (simp add: parquet_fails_first_def quiet_world_def split: option.splits)
  have p: "parq_path (take_snapshot parquet_fails_first) (Path ''/'' [''out'']) (files three_queued ! 0)
           = Some (Path ''/'' [''out'', ''a.parquet''])"
    by code_simp
  have wt: "write_table parquet_fails_first (Suc 0) (Path ''/'' [''out'', ''a.parquet'']) = Some ''disk full''"
    by (simp add: parquet_fails_first_def quiet_world_def)
  have h7: "open_decoder parquet_fails_first (Suc 0) = Some ''disk full''
           \<or> open_decoder parquet_fails_first (Suc 0) = None
              \<and> read_bin_file parquet_fails_first (Suc 0) (files three_queued ! 0) (apply_scaling (take_snapshot parquet_fails_first)) = Some ''disk full''
           \<or> open_decoder parquet_fails_first (Suc 0) = None
              \<and> read_bin_file parquet_fails_first (Suc 0) (files three_queued ! 0) (apply_scaling (take_snapshot parquet_fails_first)) = None
              \<and> (\<exists>m. user_msg (take_snapshot parquet_fails_first) = Some m
                       \<and> add_user_meta_data parquet_fails_first (Suc 0) m = Some ''disk full'')
           \<or> open_decoder parquet_fails_first (Suc 0) = None
              \<and> read_bin_file parquet_fails_first (Suc 0) (files three_queued ! 0) (apply_scaling (take_snapshot parquet_fails_first)) = None
              \<and> (case user_msg (take_snapshot parquet_fails_first) of
                     None \<Rightarrow> None | Some m \<Rightarrow> add_user_meta_data parquet_fails_first (Suc 0) m) = None
              \<and> (\<exists>p. parq_path (take_snapshot parquet_fails_first) (Path ''/'' [''out'']) (files three_queued ! 0) = Some p
                       \<and> write_table parquet_fails_first (Suc 0) p = Some ''disk full'')
           \<or> open_decoder parquet_fails_first (Suc 0) = None
              \<and> read_bin_file parquet_fails_first (Suc 0) (files three_queued ! 0) (apply_scaling (take_snapshot parquet_fails_first)) = None
              \<and> (case user_msg (take_snapshot parquet_fails_first) of
                     None \<Rightarrow> None | Some m \<Rightarrow> add_user_meta_data parquet_fails_first (Suc 0) m) = None
              \<and> (case parq_path (take_snapshot parquet_fails_first) (Path ''/'' [''out'']) (files three_queued ! 0) of
                     None \<Rightarrow> None | Some p \<Rightarrow> write_table parquet_fails_first (Suc 0) p) = None
              \<and> (\<exists>p. csv_path (take_snapshot parquet_fails_first) (Path ''/'' [''out'']) (files three_queued ! 0) = Some p
                       \<and> to_csv parquet_fails_first (Suc 0) p = Some ''disk full'')"
    using o m p wt by blast
  note T = item_failure_is_isolated [OF h1 h2 h3 h4 h5 h6 h7]
  have a: "status_changes (trace (worker_run parquet_fails_first (Path ''/'' [''out'']) (files three_queued)
              (start_state (rows three_queued) {Path ''/'' [''out'']}))) (files three_queued ! 0)
       = [Running, Error]"
    using T by blast
  have b: "status (tree (worker_run parquet_fails_first (Path ''/'' [''out'']) (files three_queued)
              (start_state (rows three_queued) {Path ''/'' [''out'']})) ! 0) = Error"
    using T by blast
  have "if stop_flag parquet_fails_first (AtItem (Suc (Suc 0)))
        then status_changes (trace (worker_run parquet_fails_first (Path ''/'' [''out'']) (files three_queued)
              (start_state (rows three_queued) {Path ''/'' [''out'']}))) (files three_queued ! Suc 0) = [Cancelled]
             \<and> status (tree (worker_run parquet_fails_first (Path ''/'' [''out'']) (files three_queued)
              (start_state (rows three_queued) {Path ''/'' [''out'']})) ! Suc 0) = Cancelled
        else \<exists>s \<in> {Done, Skipped, Error}.
               status_changes (trace (worker_run parquet_fails_first (Path ''/'' [''out'']) (files three_queued)
              (start_state (rows three_queued) {Path ''/'' [''out'']}))) (files three_queued ! Suc 0) = [Running, s]
               \<and> status (tree (worker_run parquet_fails_first (Path ''/'' [''out'']) (files three_queued)
              (start_state (rows three_queued) {Path ''/'' [''out'']})) ! Suc 0) = s"
    using T nx by blast
  then have c: "\<exists>s \<in> {Done, Skipped, Error}.
               status_changes (trace (worker_run parquet_fails_first (Path ''/'' [''out'']) (files three_queued)
              (start_state (rows three_queued) {Path ''/'' [''out'']}))) (files three_queued ! Suc 0) = [Running, s]
               \<and> status (tree (worker_run parquet_fails_first (Path ''/'' [''out'']) (files three_queued)
              (start_state (rows three_queued) {Path ''/'' [''out'']})) ! Suc 0) = s"
    by (simp only: if_not_P [OF ns])
  have g3: "import_decoder broken_first = None"
    by (simp add: broken_first_def quiet_world_def)
  have g5: "\<forall>j \<le> 0. \<not> stop_flag broken_first (AtItem (Suc j))"
    by (simp add: broken_first_def quiet_world_def)
  have g6: "\<not> (skip_existing (ui broken_first (AtItem (Suc 0)))
          \<and> (on_disk (fs (worker_loop broken_first (take_snapshot broken_first)
                              (Path ''/'' [''out'']) (length (files three_queued)) 1
                              (take 0 (files three_queued))
                              (start_state (rows three_queued) {Path ''/'' [''out'']})))
                 (parq_path (take_snapshot broken_first) (Path ''/'' [''out''])
                    (files three_queued ! 0))
               \<or> on_disk (fs (worker_loop broken_first (take_snapshot broken_first)
                                   (Path ''/'' [''out'']) (length (files three_queued)) 1
                                   (take 0 (files three_queued))
                                   (start_state (rows three_queued) {Path ''/'' [''out'']})))
                    (csv_path (take_snapshot broken_first) (Path ''/'' [''out''])
                       (files three_queued ! 0))))"
    by code_simp
  have go: "open_decoder broken_first (Suc 0) = None"
    by (simp add: broken_first_def quiet_world_def)
  have gr: "read_bin_file broken_first (Suc 0) (files three_queued ! 0) (apply_scaling (take_snapshot broken_first))
            = Some ''bad header''"
    by (simp add: broken_first_def quiet_world_def)
  have g7: "open_decoder broken_first (Suc 0) = Some ''bad header''
           \<or> open_decoder broken_first (Suc 0) = None
              \<and> read_bin_file broken_first (Suc 0) (files three_queued ! 0) (apply_scaling (take_snapshot broken_first)) = Some ''bad header''
           \<or> open_decoder broken_first (Suc 0) = None
              \<and> read_bin_file broken_first (Suc 0) (files three_queued ! 0) (apply_scaling (take_snapshot broken_first)) = None
              \<and> (\<exists>m. user_msg (take_snapshot broken_first) = Some m
                       \<and> add_user_meta_data broken_first (Suc 0) m = Some ''bad header'')
           \<or> open_decoder broken_first (Suc 0) = None
              \<and> read_bin_file broken_first (Suc 0) (files three_queued ! 0) (apply_scaling (take_snapshot broken_first)) = None
              \<and> (case user_msg (take_snapshot broken_first) of
                     None \<Rightarrow> None | Some m \<Rightarrow> add_user_meta_data broken_first (Suc 0) m) = None
              \<and> (\<exists>p. parq_path (take_snapshot broken_first) (Path ''/'' [''out'']) (files three_queued ! 0) = Some p
                       \<and> write_table broken_first (Suc 0) p = Some ''bad header'')
           \<or> open_decoder broken_first (Suc 0) = None
              \<and> read_bin_file broken_first (Suc 0) (files three_queued ! 0) (apply_scaling (take_snapshot broken_first)) = None
              \<and> (case user_msg (take_snapshot broken_first) of
                     None \<Rightarrow> None | Some m \<Rightarrow> add_user_meta_data broken_first (Suc 0) m) = None
              \<and> (case parq_path (take_snapshot broken_first) (Path ''/'' [''out'']) (files three_queued ! 0) of
                     None \<Rightarrow> None | Some p \<Rightarrow> write_table broken_first (Suc 0) p) = None
              \<and> (\<exists>p. csv_path (take_snapshot broken_first) (Path ''/'' [''out'']) (files three_queued ! 0) = Some p
                       \<and> to_csv broken_first (Suc 0) p = Some ''bad header'')"
    using go gr by blast
  note U = item_failure_is_isolated [OF h1 h2 g3 h4 g5 g6 g7]
  have a': "status_changes (trace (worker_run broken_first (Path ''/'' [''out'']) (files three_queued)
              (start_state (rows three_queued) {Path ''/'' [''out'']}))) (files three_queued ! 0)
       = [Running, Error]"
    using U by blast
  have b': "status (tree (worker_run broken_first (Path ''/'' [''out'']) (files three_queued)
              (start_state (rows three_queued) {Path ''/'' [''out'']})) ! 0) = Error"
    using U by blast
  from h1 h2 h3 h4 h5' p wt a b c gr a' b' show ?thesis by blast
qed

subsection \<open>Enqueueing: rows, order and identity\<close>

lemma add_files_append:
  "add_files disk (ps @ ps') q = add_files disk ps' (add_files disk ps q)"
  by (induction ps arbitrary: q) simp_all

lemma on_drop_files_append:
  "on_drop_files disk (ps @ ps') q = on_drop_files disk ps' (on_drop_files disk ps q)"
  by (induction ps arbitrary: q) simp_all

lemma add_files_mirror:
  "map row_path (rows q) = files q \<Longrightarrow>
   map row_path (rows (add_files disk ps q)) = files (add_files disk ps q)"
  by (induction ps arbitrary: q) (simp_all add: tree_insert_def)

lemma on_drop_files_mirror:
  "map row_path (rows q) = files q \<Longrightarrow>
   map row_path (rows (on_drop_files disk ps q)) = files (on_drop_files disk ps q)"
  by (induction ps arbitrary: q) (simp_all add: tree_insert_def)

lemma enqueue_all_mirror:
  "map row_path (rows q) = files q \<Longrightarrow>
   map row_path (rows (enqueue_all cs q)) = files (enqueue_all cs q)"
  by (induction cs q rule: enqueue_all.induct)
     (simp_all add: add_files_mirror on_drop_files_mirror)

lemma add_files_new_rows:
  "\<exists>ys. rows (add_files disk ps q) = rows q @ ys \<and> (\<forall>r \<in> set ys. status r = Queued)"
proof (induction ps arbitrary: q)
  case Nil
  show ?case by simp
next
  case (Cons P ps)
  let ?q' = "q\<lparr>files := files q @ [P], rows := tree_insert P Queued (rows q)\<rparr>"
  show ?case
  proof (cases "P \<in> disk \<and> P \<notin> set (files q)")
    case True
    from Cons [of ?q'] obtain ys where
      ys: "rows (add_files disk ps ?q') = rows ?q' @ ys" "\<forall>r \<in> set ys. status r = Queued"
      by blast
    let ?new = "\<lparr>row_path = P, status = Queued, parquet = NoMark, csv = NoMark, tags = TagWait\<rparr>"
    have "rows (add_files disk (P # ps) q) = rows q @ (?new # ys)"
      using True ys(1) by (simp add: tree_insert_def)
    moreover have "\<forall>r \<in> set (?new # ys). status r = Queued"
      using ys(2) by simp
    ultimately show ?thesis by blast
  next
    case False
    with Cons [of q] show ?thesis by auto
  qed
qed

lemma on_drop_files_new_rows:
  "\<exists>ys. rows (on_drop_files disk ps q) = rows q @ ys \<and> (\<forall>r \<in> set ys. status r = Queued)"
proof (induction ps arbitrary: q)
  case Nil
  show ?case by simp
next
  case (Cons P ps)
  let ?q' = "q\<lparr>files := files q @ [P], rows := tree_insert P Queued (rows q)\<rparr>"
  show ?case
  proof (cases "P \<in> disk \<and> lower (path_suffix P) \<in> {''.udf'', ''.bin''} \<and> P \<notin> set (files q)")
    case True
    from Cons [of ?q'] obtain ys where
      ys: "rows (on_drop_files disk ps ?q') = rows ?q' @ ys" "\<forall>r \<in> set ys. status r = Queued"
      by blast
    let ?new = "\<lparr>row_path = P, status = Queued, parquet = NoMark, csv = NoMark, tags = TagWait\<rparr>"
    have "rows (on_drop_files disk (P # ps) q) = rows q @ (?new # ys)"
      using True ys(1) by (simp add: tree_insert_def)
    moreover have "\<forall>r \<in> set (?new # ys). status r = Queued"
      using ys(2) by simp
    ultimately show ?thesis by blast
  next
    case False
    with Cons [of q] show ?thesis by auto
  qed
qed

lemma enqueue_all_new_rows:
  "\<exists>ys. rows (enqueue_all cs q) = rows q @ ys \<and> (\<forall>r \<in> set ys. status r = Queued)"
proof (induction cs q rule: enqueue_all.induct)
  case (1 q)
  show ?case by simp
next
  case (2 disk ps cs q)
  obtain ys where ys: "rows (add_files disk ps q) = rows q @ ys" "\<forall>r \<in> set ys. status r = Queued"
    using add_files_new_rows by blast
  obtain zs where zs: "rows (enqueue_all cs (add_files disk ps q)) = rows (add_files disk ps q) @ zs"
    "\<forall>r \<in> set zs. status r = Queued"
    using 2 by blast
  have "rows (enqueue_all (AddFiles disk ps # cs) q) = rows q @ (ys @ zs)"
    using ys(1) zs(1) by simp
  moreover have "\<forall>r \<in> set (ys @ zs). status r = Queued"
    using ys(2) zs(2) by auto
  ultimately show ?case by blast
next
  case (3 disk ps cs q)
  obtain ys where ys: "rows (on_drop_files disk ps q) = rows q @ ys" "\<forall>r \<in> set ys. status r = Queued"
    using on_drop_files_new_rows by blast
  obtain zs where zs: "rows (enqueue_all cs (on_drop_files disk ps q)) = rows (on_drop_files disk ps q) @ zs"
    "\<forall>r \<in> set zs. status r = Queued"
    using 3 by blast
  have "rows (enqueue_all (DropFiles disk ps # cs) q) = rows q @ (ys @ zs)"
    using ys(1) zs(1) by simp
  moreover have "\<forall>r \<in> set (ys @ zs). status r = Queued"
    using ys(2) zs(2) by auto
  ultimately show ?case by blast
qed

text \<open>
  C8, as the code has it. Take a queue without duplicates whose view has one row per
  queued file, in order. After any sequence of enqueue calls the queue has no two paths
  that are equal as \<^verbatim>\<open>Path\<close> values, it begins with the items it had, in their order,
  the view still has one row per queued file in the same order, and every new row is
  Queued. A call handles its paths in the order given. Through the file dialog, one path
  is appended, with a Queued row, when it is on disk and not yet in the queue, and the
  queue is unchanged otherwise. Through drag and drop there is a third condition: the
  suffix of the path, in lower case, must be \<^verbatim>\<open>.udf\<close> or \<^verbatim>\<open>.bin\<close>. Paths are not made
  canonical before they are compared.
\<close>

theorem enqueue_keeps_order_and_identity:
  assumes "distinct (files q)" and "map row_path (rows q) = files q"
  shows "distinct (files (enqueue_all cs q))
       \<and> (\<exists>ys. files (enqueue_all cs q) = files q @ ys)
       \<and> files (add_files disk [P] q) =
           (if P \<in> disk \<and> P \<notin> set (files q) then files q @ [P] else files q)
       \<and> files (on_drop_files disk [P] q) =
           (if P \<in> disk \<and> lower (path_suffix P) \<in> {''.udf'', ''.bin''} \<and> P \<notin> set (files q)
            then files q @ [P] else files q)
       \<and> map row_path (rows (enqueue_all cs q)) = files (enqueue_all cs q)
       \<and> (\<exists>ys. rows (enqueue_all cs q) = rows q @ ys \<and> (\<forall>r \<in> set ys. status r = Queued))
       \<and> add_files disk (ps @ ps') q = add_files disk ps' (add_files disk ps q)
       \<and> on_drop_files disk (ps @ ps') q = on_drop_files disk ps' (on_drop_files disk ps q)
       \<and> add_files disk [P] q =
           (if P \<in> disk \<and> P \<notin> set (files q)
            then q\<lparr>files := files q @ [P],
                   rows := rows q @ [\<lparr>row_path = P, status = Queued, parquet = NoMark,
                                      csv = NoMark, tags = TagWait\<rparr>]\<rparr>
            else q)
       \<and> on_drop_files disk [P] q =
           (if P \<in> disk \<and> lower (path_suffix P) \<in> {''.udf'', ''.bin''} \<and> P \<notin> set (files q)
            then q\<lparr>files := files q @ [P],
                   rows := rows q @ [\<lparr>row_path = P, status = Queued, parquet = NoMark,
                                      csv = NoMark, tags = TagWait\<rparr>]\<rparr>
            else q)"
  using assms enqueue_all_distinct [of q cs] enqueue_all_extends [of cs q]
    enqueue_all_mirror [of q cs] enqueue_all_new_rows [of cs q]
    add_files_append [of disk ps ps' q] on_drop_files_append [of disk ps ps' q]
  by (simp add: tree_insert_def)

theorem enqueue_keeps_order_and_identity_witness:
  "distinct (files \<lparr>files = [Path ''/'' [''in'', ''a.udf'']],
                    rows = [\<lparr>row_path = Path ''/'' [''in'', ''a.udf''], status = Done,
                             parquet = Check, csv = Check, tags = TagOk\<rparr>]\<rparr>)
   \<and> map row_path (rows \<lparr>files = [Path ''/'' [''in'', ''a.udf'']],
                          rows = [\<lparr>row_path = Path ''/'' [''in'', ''a.udf''], status = Done,
                                   parquet = Check, csv = Check, tags = TagOk\<rparr>]\<rparr>)
       = files \<lparr>files = [Path ''/'' [''in'', ''a.udf'']],
                 rows = [\<lparr>row_path = Path ''/'' [''in'', ''a.udf''], status = Done,
                          parquet = Check, csv = Check, tags = TagOk\<rparr>]\<rparr>
   \<and> files (enqueue_all
        [AddFiles {Path ''/'' [''in'', ''a.udf''], Path ''/'' [''in'', ''b.bin'']}
                  [Path ''/'' [''in'', ''b.bin''], Path ''/'' [''in'', ''a.udf''],
                   Path ''/'' [''in'', ''c.udf'']],
         DropFiles {Path ''/'' [''in'', ''d.UDF''], Path ''/'' [''in'', ''b.bin'']}
                  [Path ''/'' [''in'', ''b.bin''], Path ''/'' [''in'', ''d.UDF'']]]
        \<lparr>files = [Path ''/'' [''in'', ''a.udf'']],
          rows = [\<lparr>row_path = Path ''/'' [''in'', ''a.udf''], status = Done,
                   parquet = Check, csv = Check, tags = TagOk\<rparr>]\<rparr>)
     = [Path ''/'' [''in'', ''a.udf''], Path ''/'' [''in'', ''b.bin''],
        Path ''/'' [''in'', ''d.UDF'']]
   \<and> map status (rows (enqueue_all
        [AddFiles {Path ''/'' [''in'', ''a.udf''], Path ''/'' [''in'', ''b.bin'']}
                  [Path ''/'' [''in'', ''b.bin''], Path ''/'' [''in'', ''a.udf''],
                   Path ''/'' [''in'', ''c.udf'']],
         DropFiles {Path ''/'' [''in'', ''d.UDF''], Path ''/'' [''in'', ''b.bin'']}
                  [Path ''/'' [''in'', ''b.bin''], Path ''/'' [''in'', ''d.UDF'']]]
        \<lparr>files = [Path ''/'' [''in'', ''a.udf'']],
          rows = [\<lparr>row_path = Path ''/'' [''in'', ''a.udf''], status = Done,
                   parquet = Check, csv = Check, tags = TagOk\<rparr>]\<rparr>))
     = [Done, Queued, Queued]"
  using enqueue_keeps_order_and_identity
    [of "\<lparr>files = [Path ''/'' [''in'', ''a.udf'']],
          rows = [\<lparr>row_path = Path ''/'' [''in'', ''a.udf''], status = Done,
                   parquet = Check, csv = Check, tags = TagOk\<rparr>]\<rparr>"
        "[AddFiles {Path ''/'' [''in'', ''a.udf''], Path ''/'' [''in'', ''b.bin'']}
                  [Path ''/'' [''in'', ''b.bin''], Path ''/'' [''in'', ''a.udf''],
                   Path ''/'' [''in'', ''c.udf'']],
         DropFiles {Path ''/'' [''in'', ''d.UDF''], Path ''/'' [''in'', ''b.bin'']}
                  [Path ''/'' [''in'', ''b.bin''], Path ''/'' [''in'', ''d.UDF'']]]"
        "{}" "Path ''/'' []" "[]" "[]"]
  by (simp add: path_suffix_def path_name_def rfind_def lower_def lower_char_def
        char_of_def bit_iff_odd_drop_bit tree_insert_def)

text \<open>
  C8, as the specification states it, fails twice. A dropped file that is on disk and
  not in the queue, but is named \<^verbatim>\<open>notes.txt\<close>, is not appended. And one file chosen
  under two spellings, \<^verbatim>\<open>/in/a.udf\<close> and \<^verbatim>\<open>/in/sub/../a.udf\<close>, is queued twice: the two
  items have the same canonical path.
\<close>

theorem drop_other_suffix_counterexample:
  "Path ''/'' [''in'', ''notes.txt''] \<in> {Path ''/'' [''in'', ''notes.txt'']}
   \<and> Path ''/'' [''in'', ''notes.txt''] \<notin> set (files \<lparr>files = [], rows = []\<rparr>)
   \<and> files (on_drop_files {Path ''/'' [''in'', ''notes.txt'']} [Path ''/'' [''in'', ''notes.txt'']]
              \<lparr>files = [], rows = []\<rparr>)
      \<noteq> files \<lparr>files = [], rows = []\<rparr> @ [Path ''/'' [''in'', ''notes.txt'']]
   \<and> canonical (Path ''/'' [''in'', ''sub'', ''..'', ''a.udf''])
      = canonical (Path ''/'' [''in'', ''a.udf''])
   \<and> files (add_files
              {Path ''/'' [''in'', ''a.udf''], Path ''/'' [''in'', ''sub'', ''..'', ''a.udf'']}
              [Path ''/'' [''in'', ''a.udf''], Path ''/'' [''in'', ''sub'', ''..'', ''a.udf'']]
              \<lparr>files = [], rows = []\<rparr>)
      = [Path ''/'' [''in'', ''a.udf''], Path ''/'' [''in'', ''sub'', ''..'', ''a.udf'']]"
  by code_simp

subsection \<open>Skip-existing is read in flight\<close>

text \<open>
  C2 does not hold of the code. \<^verbatim>\<open>_worker_run\<close> copies five settings into local
  variables before its loop but calls \<^verbatim>\<open>self.skip_existing.get()\<close> in every iteration
  (and \<^verbatim>\<open>self.zip_outputs.get()\<close> after the loop). \<^verbatim>\<open>_on_convert\<close> asks whether
  existing files may be overwritten only when skip-existing is off at that moment. So
  with skip-existing on at the start, \<^verbatim>\<open>b.csv\<close> on disk and a user who would answer No,
  the batch starts without a question; when the box is unticked while the first file is
  processed, the second file is converted and \<^verbatim>\<open>b.csv\<close> is overwritten. With the
  settings left alone the second file is skipped, and with skip-existing off from the
  start the batch is refused.
\<close>

theorem skip_existing_read_in_flight:
  "skip_existing (ui untick_and_decline Preflight)
   \<and> skip_existing (ui untick_and_decline AtStart)
   \<and> ui untick_and_decline AtStart = ui quiet_world AtStart
   \<and> Path ''/'' [''out'', ''b.csv''] \<in> {Path ''/'' [''out''], Path ''/'' [''out'', ''b.csv'']}
   \<and> preflight untick_and_decline {Path ''/'' [''out''], Path ''/'' [''out'', ''b.csv'']}
        (files three_queued)
      = Inr (Path ''/'' [''out''], {Path ''/'' [''out''], Path ''/'' [''out'', ''b.csv'']})
   \<and> map_sum id (\<lambda>R. (map status (tree R), produced R))
        (on_convert untick_and_decline {Path ''/'' [''out''], Path ''/'' [''out'', ''b.csv'']}
           three_queued)
      = Inr ([Done, Done, Done],
             [Path ''/'' [''out'', ''a.parquet''], Path ''/'' [''out'', ''a.csv''],
              Path ''/'' [''out'', ''b.parquet''], Path ''/'' [''out'', ''b.csv''],
              Path ''/'' [''out'', ''c.parquet''], Path ''/'' [''out'', ''c.csv'']])
   \<and> map_sum id (\<lambda>R. (map status (tree R), produced R))
        (on_convert (quiet_world\<lparr>askyesno := False\<rparr>)
           {Path ''/'' [''out''], Path ''/'' [''out'', ''b.csv'']} three_queued)
      = Inr ([Done, Skipped, Done],
             [Path ''/'' [''out'', ''a.parquet''], Path ''/'' [''out'', ''a.csv''],
              Path ''/'' [''out'', ''c.parquet''], Path ''/'' [''out'', ''c.csv'']])
   \<and> map_sum id (\<lambda>R. (map status (tree R), produced R))
        (on_convert (quiet_world\<lparr>ui := (\<lambda>m. default_config\<lparr>skip_existing := False\<rparr>),
                                   askyesno := False\<rparr>)
           {Path ''/'' [''out''], Path ''/'' [''out'', ''b.csv'']} three_queued)
      = Inl (OverwriteDeclined [''b.csv''])"
  proof -
  have s1: "skip_existing (ui untick_and_decline Preflight)"
    by code_simp
  have s2: "skip_existing (ui untick_and_decline AtStart)"
    by code_simp
  have s3: "ui untick_and_decline AtStart = ui quiet_world AtStart"
    by code_simp
  have m: "Path ''/'' [''out'', ''b.csv''] \<in> {Path ''/'' [''out''], Path ''/'' [''out'', ''b.csv'']}"
    by simp
  have p1: "preflight untick_and_decline {Path ''/'' [''out''], Path ''/'' [''out'', ''b.csv'']} (files three_queued) = Inr (Path ''/'' [''out''], {Path ''/'' [''out''], Path ''/'' [''out'', ''b.csv'']})"
    by code_simp
  have p2: "preflight (quiet_world\<lparr>askyesno := False\<rparr>) {Path ''/'' [''out''], Path ''/'' [''out'', ''b.csv'']} (files three_queued) = Inr (Path ''/'' [''out''], {Path ''/'' [''out''], Path ''/'' [''out'', ''b.csv'']})"
    by code_simp
  have p3: "preflight (quiet_world\<lparr>ui := (\<lambda>m. default_config\<lparr>skip_existing := False\<rparr>),
                                   askyesno := False\<rparr>) {Path ''/'' [''out''], Path ''/'' [''out'', ''b.csv'']} (files three_queued) = Inl (OverwriteDeclined [''b.csv''])"
    by code_simp
  have r1: "map status (tree (worker_run untick_and_decline (Path ''/'' [''out'']) (files three_queued)
            (start_state (rows three_queued) {Path ''/'' [''out''], Path ''/'' [''out'', ''b.csv'']}))) = [Done, Done, Done]"
    by code_simp
  have q1: "produced (worker_run untick_and_decline (Path ''/'' [''out'']) (files three_queued)
            (start_state (rows three_queued) {Path ''/'' [''out''], Path ''/'' [''out'', ''b.csv'']}))
            = [Path ''/'' [''out'', ''a.parquet''], Path ''/'' [''out'', ''a.csv''],
               Path ''/'' [''out'', ''b.parquet''], Path ''/'' [''out'', ''b.csv''],
               Path ''/'' [''out'', ''c.parquet''], Path ''/'' [''out'', ''c.csv'']]"
    by code_simp
  have r2: "map status (tree (worker_run (quiet_world\<lparr>askyesno := False\<rparr>) (Path ''/'' [''out'']) (files three_queued)
            (start_state (rows three_queued) {Path ''/'' [''out''], Path ''/'' [''out'', ''b.csv'']}))) = [Done, Skipped, Done]"
    by code_simp
  have q2: "produced (worker_run (quiet_world\<lparr>askyesno := False\<rparr>) (Path ''/'' [''out'']) (files three_queued)
            (start_state (rows three_queued) {Path ''/'' [''out''], Path ''/'' [''out'', ''b.csv'']}))
            = [Path ''/'' [''out'', ''a.parquet''], Path ''/'' [''out'', ''a.csv''],
               Path ''/'' [''out'', ''c.parquet''], Path ''/'' [''out'', ''c.csv'']]"
    by code_simp
  have e1: "map_sum id (\<lambda>R. (map status (tree R), produced R))
        (on_convert untick_and_decline {Path ''/'' [''out''], Path ''/'' [''out'', ''b.csv'']} three_queued)
      = Inr ([Done, Done, Done],
             [Path ''/'' [''out'', ''a.parquet''], Path ''/'' [''out'', ''a.csv''],
              Path ''/'' [''out'', ''b.parquet''], Path ''/'' [''out'', ''b.csv''],
              Path ''/'' [''out'', ''c.parquet''], Path ''/'' [''out'', ''c.csv'']])"
    by (simp add: on_convert_def p1 r1 q1)
  have e2: "map_sum id (\<lambda>R. (map status (tree R), produced R))
        (on_convert (quiet_world\<lparr>askyesno := False\<rparr>) {Path ''/'' [''out''], Path ''/'' [''out'', ''b.csv'']} three_queued)
      = Inr ([Done, Skipped, Done],
             [Path ''/'' [''out'', ''a.parquet''], Path ''/'' [''out'', ''a.csv''],
              Path ''/'' [''out'', ''c.parquet''], Path ''/'' [''out'', ''c.csv'']])"
    by (simp add: on_convert_def p2 r2 q2)
  have e3: "map_sum id (\<lambda>R. (map status (tree R), produced R))
        (on_convert (quiet_world\<lparr>ui := (\<lambda>m. default_config\<lparr>skip_existing := False\<rparr>),
                                   askyesno := False\<rparr>) {Path ''/'' [''out''], Path ''/'' [''out'', ''b.csv'']} three_queued)
      = Inl (OverwriteDeclined [''b.csv''])"
    by (simp add: on_convert_def p3)
  from s1 s2 s3 m p1 e1 e2 e3 show ?thesis by blast
qed

end
